theory Spec2Isabelle
  imports Complex_Main "HOL-Library.AList"
begin

section \<open>Numbers and vectors\<close>

text \<open>
  A JavaScript number is modelled as an exact real or \<open>NaN\<close>: rounding, overflow to
  infinity and signed zero of IEEE doubles are idealised away, \<open>NaN\<close> is kept because it
  is what arithmetic on an out-of-range array read (\<open>undefined\<close>) produces. The
  statements about computed values therefore repeat the operations of the code one for
  one; where two values are stated to be equal the doubles compute both exactly, and
  where they are stated to differ they differ by far more than a rounding error.
\<close>

datatype jsnum = Val real | NaN

fun jadd :: "jsnum \<Rightarrow> jsnum \<Rightarrow> jsnum" where
  "jadd (Val x) (Val y) = Val (x + y)"
| "jadd _ _ = NaN"

fun jsub :: "jsnum \<Rightarrow> jsnum \<Rightarrow> jsnum" where
  "jsub (Val x) (Val y) = Val (x - y)"
| "jsub _ _ = NaN"

fun jmul :: "jsnum \<Rightarrow> jsnum \<Rightarrow> jsnum" where
  "jmul (Val x) (Val y) = Val (x * y)"
| "jmul _ _ = NaN"

text \<open>Division; every divisor in this program is a positive count, so the quotient by
  zero (an infinity or \<open>NaN\<close> in JavaScript) is never taken.\<close>

fun jdiv :: "jsnum \<Rightarrow> jsnum \<Rightarrow> jsnum" where
  "jdiv (Val x) (Val y) = (if y = 0 then NaN else Val (x / y))"
| "jdiv _ _ = NaN"

fun jsin :: "jsnum \<Rightarrow> jsnum" where
  "jsin (Val x) = Val (sin x)"
| "jsin NaN = NaN"

fun jcos :: "jsnum \<Rightarrow> jsnum" where
  "jcos (Val x) = Val (cos x)"
| "jcos NaN = NaN"

fun jtanh :: "jsnum \<Rightarrow> jsnum" where
  "jtanh (Val x) = Val (tanh x)"
| "jtanh NaN = NaN"

type_synonym vec = "jsnum list"

text \<open>\<open>v[i]\<close> inside an arithmetic expression: out of range it is \<open>undefined\<close>, which
  arithmetic turns into \<open>NaN\<close>.\<close>

definition idx :: "vec \<Rightarrow> nat \<Rightarrow> jsnum" where
  "idx v i = (if i < length v then v ! i else NaN)"

text \<open>\<open>v[i] = x\<close>: in range it overwrites, beyond the end JavaScript extends the array
  (the holes read as \<open>undefined\<close>).\<close>

definition jset :: "vec \<Rightarrow> nat \<Rightarrow> jsnum \<Rightarrow> vec" where
  "jset v i x = (if i < length v then v[i := x]
                 else v @ replicate (i - length v) NaN @ [x])"

text \<open>\<open>Math.random()\<close> is the \<open>k\<close>-th value of a sequence of draws; the position \<open>k\<close>
  is threaded through every function that may draw.\<close>

type_synonym rand = "nat \<Rightarrow> real"

definition Math_random :: "rand \<Rightarrow> nat \<Rightarrow> jsnum \<times> nat" where
  "Math_random src k = (Val (src k), Suc k)"

datatype error = TypeError | RangeError

definition DEFAULT_DIM :: int where "DEFAULT_DIM = 10"
definition DEFAULT_LEVELS :: nat where "DEFAULT_LEVELS = 50"
definition DEFAULT_STEPS :: nat where "DEFAULT_STEPS = 100"

text \<open>The array lengths that \<open>new Array(len)\<close> accepts are \<open>0 .. 2^32 - 1\<close>.\<close>

definition MAX_ARRAY_LENGTH :: int where
  "MAX_ARRAY_LENGTH = 4294967295"

text \<open>\<open>new Array(len).fill(0)\<close>: a length outside \<open>0 .. 2^32 - 1\<close> is a RangeError.\<close>

definition zeros :: "int \<Rightarrow> error + vec" where
  "zeros len = (if len < 0 \<or> MAX_ARRAY_LENGTH < len then Inl RangeError
                else Inr (replicate (nat len) (Val 0)))"

text \<open>\<open>Array.from({length: len}, () => Math.random())\<close>: a negative length counts as 0,
  and a length above \<open>2^32 - 1\<close> is a RangeError of the array construction, before any
  number is drawn.\<close>

definition randVec :: "rand \<Rightarrow> nat \<Rightarrow> int \<Rightarrow> error + vec \<times> nat" where
  "randVec src k len =
     (if MAX_ARRAY_LENGTH < len then Inl RangeError
      else Inr (map (\<lambda>i. Val (src (k + i))) [0..<nat len], k + nat len))"

definition sinVec :: "vec \<Rightarrow> vec" where
  "sinVec v = map jsin v"

definition cosVec :: "vec \<Rightarrow> vec" where
  "cosVec v = map jcos v"

definition addVec :: "vec \<Rightarrow> vec \<Rightarrow> vec" where
  "addVec a b = map (\<lambda>(i, x). jadd x (idx b i)) (enumerate 0 a)"

definition subVec :: "vec \<Rightarrow> vec \<Rightarrow> vec" where
  "subVec a b = map (\<lambda>(i, x). jsub x (idx b i)) (enumerate 0 a)"

definition scaleVec :: "vec \<Rightarrow> jsnum \<Rightarrow> vec" where
  "scaleVec v s = map (\<lambda>x. jmul x s) v"

definition blendVec :: "vec \<Rightarrow> vec \<Rightarrow> jsnum \<Rightarrow> vec" where
  "blendVec a b alpha =
     (let oneMinus = jsub (Val 1) alpha
      in map (\<lambda>(i, x). jadd (jmul oneMinus x) (jmul alpha (idx b i))) (enumerate 0 a))"

section \<open>Dynamics models\<close>

text \<open>One pass of the loop body of \<open>evolveOscillators\<close> for pair \<open>i\<close>: the new position
  is computed from the damped velocity, and only then is the noise added to the velocity.\<close>

definition osc_body ::
  "rand \<Rightarrow> nat \<Rightarrow> real \<Rightarrow> real \<Rightarrow> vec \<Rightarrow> nat \<Rightarrow> nat \<Rightarrow> jsnum \<times> jsnum \<times> nat" where
  "osc_body src k gamma noiseScale prev n i =
     (let dt = 0.05; kk = 1.0; coupling = 0.1;
          xi = idx prev (2 * i);
          vi = idx prev (2 * i + 1);
          left = (if i > 0 then idx prev (2 * (i - 1)) else xi);
          right = (if i < n - 1 then idx prev (2 * (i + 1)) else xi);
          force = jsub (jmul (Val (- kk)) xi)
                       (jmul (Val coupling) (jadd (jsub xi left) (jsub xi right)));
          vNext0 = jadd vi (jmul (Val dt) force);
          vNext1 = jmul vNext0 (Val (1 - gamma));
          xNext = jadd xi (jmul (Val dt) vNext1)
      in if noiseScale > 0
         then (let (r, k') = Math_random src k
               in (xNext,
                   jadd vNext1 (jmul (jsub (jmul r (Val 2)) (Val 1)) (Val noiseScale)), k'))
         else (xNext, vNext1, k))"

function osc_loop ::
  "rand \<Rightarrow> nat \<Rightarrow> real \<Rightarrow> real \<Rightarrow> vec \<Rightarrow> nat \<Rightarrow> nat \<Rightarrow> vec \<Rightarrow> vec \<times> nat" where
  "osc_loop src k gamma noiseScale prev n i nxt =
     (if i < n
      then (case osc_body src k gamma noiseScale prev n i of
              (xNext, vNext, k') \<Rightarrow>
                osc_loop src k' gamma noiseScale prev n (i + 1)
                  (jset (jset nxt (2 * i) xNext) (2 * i + 1) vNext))
      else (nxt, k))"
  by pat_completeness auto
termination
  by (relation "measure (\<lambda>(src, k, gamma, noiseScale, prev, n, i, nxt). n - i)") auto

definition evolveOscillators :: "rand \<Rightarrow> nat \<Rightarrow> vec \<Rightarrow> string \<Rightarrow> vec \<times> nat" where
  "evolveOscillators src k prev systemType =
     (let gamma = (if systemType = ''open'' then 0.05
                   else if systemType = ''closed'' then 0.01 else 0.0);
          noiseScale = (if systemType = ''open'' then 0.02 else 0.0);
          d = length prev;
          n = d div 2
      in case osc_loop src k gamma noiseScale prev n 0 prev of
           (nxt, k') \<Rightarrow>
             (if d mod 2 = 1 then jset nxt (d - 1) (idx prev (d - 1)) else nxt, k'))"

function ising_loop ::
  "rand \<Rightarrow> nat \<Rightarrow> real \<Rightarrow> jsnum \<Rightarrow> nat \<Rightarrow> nat \<Rightarrow> vec \<Rightarrow> vec \<times> nat" where
  "ising_loop src k noiseScale m d i nxt =
     (if i < d
      then (let J = 1.0; h = 0.0; beta = 1.0;
                localField0 = jadd (jmul (Val J) m) (Val h)
            in if noiseScale > 0
               then (case Math_random src k of
                       (r, k') \<Rightarrow>
                         ising_loop src k' noiseScale m d (i + 1)
                           (jset nxt i
                              (jtanh (jmul (Val beta)
                                 (jadd localField0
                                    (jmul (jsub (jmul r (Val 2)) (Val 1)) (Val noiseScale)))))))
               else ising_loop src k noiseScale m d (i + 1)
                      (jset nxt i (jtanh (jmul (Val beta) localField0))))
      else (nxt, k))"
  by pat_completeness auto
termination
  by (relation "measure (\<lambda>(src, k, noiseScale, m, d, i, nxt). d - i)") auto

text \<open>\<open>m /= dim || 1\<close>: the divisor is 1 for the empty vector.\<close>

definition evolveIsing :: "rand \<Rightarrow> nat \<Rightarrow> vec \<Rightarrow> string \<Rightarrow> vec \<times> nat" where
  "evolveIsing src k prev systemType =
     (let d = length prev;
          spins = prev;
          m0 = foldl jadd (Val 0) spins;
          m = jdiv m0 (Val (if d = 0 then 1 else real d));
          noiseScale = (if systemType = ''open'' then 0.15 else 0.0)
      in ising_loop src k noiseScale m d 0 (replicate d NaN))"

section \<open>LivingUniverse\<close>

text \<open>
  \<open>history\<close> is the array of level-0 states. \<open>levels\<close> is the object of objects
  \<open>levels[t][level]\<close>, kept as association lists in insertion order. Arrays are never
  mutated in place once stored (every operation builds a new array), so the array shared
  by \<open>history\<close> and \<open>levels[t][0]\<close> is modelled by two equal values.
\<close>

record universe =
  dim :: int
  modelType :: string
  systemType :: string
  history :: "vec list"
  levels :: "(nat \<times> (nat \<times> vec) list) list"

text \<open>The constructor; an omitted argument is \<open>None\<close>. \<open>dim || DEFAULT_DIM\<close> replaces
  an omitted or zero \<open>dim\<close>, \<open>s || default\<close> an omitted or empty string, and \<open>!seed\<close>
  holds only for an omitted seed (an empty array is truthy). The only statement that can
  throw is \<open>randVec(this.dim)\<close>; no object is constructed then.\<close>

definition LivingUniverse ::
  "rand \<Rightarrow> nat \<Rightarrow> int option \<Rightarrow> string option \<Rightarrow> string option \<Rightarrow> vec option
     \<Rightarrow> error + universe \<times> nat" where
  "LivingUniverse src k dim_arg modelType_arg systemType_arg seed_arg =
     (let d = (case dim_arg of None \<Rightarrow> DEFAULT_DIM
               | Some x \<Rightarrow> if x = 0 then DEFAULT_DIM else x);
          mt = (case modelType_arg of None \<Rightarrow> ''nonlinear''
                | Some s \<Rightarrow> if s = [] then ''nonlinear'' else s);
          st = (case systemType_arg of None \<Rightarrow> ''isolated''
                | Some s \<Rightarrow> if s = [] then ''isolated'' else s)
      in case (case seed_arg of None \<Rightarrow> randVec src k d | Some s \<Rightarrow> Inr (s, k)) of
           Inl e \<Rightarrow> Inl e
         | Inr (seed, k') \<Rightarrow>
             Inr (\<lparr>dim = d, modelType = mt, systemType = st, history = [seed], levels = []\<rparr>,
                  k'))"

text \<open>\<open>this.history[t]\<close>: \<open>None\<close> is \<open>undefined\<close>.\<close>

definition hist_at :: "universe \<Rightarrow> nat \<Rightarrow> vec option" where
  "hist_at u t = (if t < length (history u) then Some (history u ! t) else None)"

text \<open>\<open>evolve(prev, memory, level)\<close>. Calling \<open>.map\<close> or \<open>.length\<close> on \<open>undefined\<close>
  throws a TypeError; the oscillator and Ising models never look at \<open>memory\<close>.\<close>

definition evolve ::
  "rand \<Rightarrow> nat \<Rightarrow> universe \<Rightarrow> vec option \<Rightarrow> vec option \<Rightarrow> nat \<Rightarrow> error + vec \<times> nat" where
  "evolve src k u prev memory level =
     (if modelType u = ''oscillators''
      then (case prev of None \<Rightarrow> Inl TypeError
            | Some p \<Rightarrow> Inr (evolveOscillators src k p (systemType u)))
      else if modelType u = ''ising''
      then (case prev of None \<Rightarrow> Inl TypeError
            | Some p \<Rightarrow> Inr (evolveIsing src k p (systemType u)))
      else (case prev of None \<Rightarrow> Inl TypeError
            | Some p \<Rightarrow>
                (case memory of None \<Rightarrow> Inl TypeError
                 | Some m \<Rightarrow>
                     (let A = sinVec p; B = cosVec m;
                          alpha = Val (1 / (1 + real level))
                      in Inr (blendVec A B alpha, k)))))"

text \<open>\<open>this.levels[t][level] = v\<close>; a TypeError when \<open>this.levels[t]\<close> is undefined.\<close>

definition set_level :: "universe \<Rightarrow> nat \<Rightarrow> nat \<Rightarrow> vec \<Rightarrow> error + universe" where
  "set_level u t level v =
     (case map_of (levels u) t of
        None \<Rightarrow> Inl TypeError
      | Some lt \<Rightarrow> Inr (u\<lparr>levels := AList.update t (AList.update level v lt) (levels u)\<rparr>))"

text \<open>The body of the level loop of \<open>step\<close>. It writes only in its last statement, so a
  throw leaves the universe as it was before the iteration.\<close>

definition level_body :: "rand \<Rightarrow> nat \<Rightarrow> universe \<Rightarrow> nat \<Rightarrow> nat \<Rightarrow> error + universe \<times> nat" where
  "level_body src k u t level =
     (case map_of (levels u) t of
        None \<Rightarrow> Inl TypeError
      | Some lt \<Rightarrow>
          (let prev_layer = map_of lt (level - 1)
           in case (if t > 1
                    then (case map_of (levels u) (t - 1) of
                            None \<Rightarrow> Inl TypeError
                          | Some lp \<Rightarrow> Inr (map_of lp (level - 1)))
                    else Inr prev_layer) of
                Inl e \<Rightarrow> Inl e
              | Inr mem_layer \<Rightarrow>
                  (case evolve src k u prev_layer mem_layer level of
                     Inl e \<Rightarrow> Inl e
                   | Inr (state, k') \<Rightarrow>
                       (case set_level u t level state of
                          Inl e \<Rightarrow> Inl e
                        | Inr u' \<Rightarrow> Inr (u', k')))))"

text \<open>A method that mutates the universe returns the exception it threw, if any, together
  with the universe as the throw left it and the position in the random sequence. The
  arguments \<open>maxLevel\<close> and \<open>steps\<close> are passed explicitly; a caller that omits them
  passes \<open>DEFAULT_LEVELS\<close> and \<open>DEFAULT_STEPS\<close>. Times and levels are natural numbers.\<close>

function level_loop ::
  "rand \<Rightarrow> nat \<Rightarrow> universe \<Rightarrow> nat \<Rightarrow> nat \<Rightarrow> nat \<Rightarrow> error option \<times> universe \<times> nat" where
  "level_loop src k u t maxLevel level =
     (if level < maxLevel
      then (case level_body src k u t level of
              Inl e \<Rightarrow> (Some e, u, k)
            | Inr (u', k') \<Rightarrow> level_loop src k' u' t maxLevel (level + 1))
      else (None, u, k))"
  by pat_completeness auto
termination
  by (relation "measure (\<lambda>(src, k, u, t, maxLevel, level). maxLevel - level)") auto

definition step ::
  "rand \<Rightarrow> nat \<Rightarrow> universe \<Rightarrow> nat \<Rightarrow> nat \<Rightarrow> error option \<times> universe \<times> nat" where
  "step src k u t maxLevel =
     (if t = 0 then (None, u, k)
      else
        (let u1 = u\<lparr>levels := AList.update t [] (levels u)\<rparr>;
             prev = hist_at u1 (t - 1);
             mem = (if t > 1 then hist_at u1 (t - 2) else prev)
         in case evolve src k u1 prev mem 0 of
              Inl e \<Rightarrow> (Some e, u1, k)
            | Inr (base_now, k1) \<Rightarrow>
                (let u2 = u1\<lparr>history := history u1 @ [base_now]\<rparr>
                 in case set_level u2 t 0 base_now of
                      Inl e \<Rightarrow> (Some e, u2, k1)
                    | Inr u3 \<Rightarrow> level_loop src k1 u3 t maxLevel 1)))"

function run_loop ::
  "rand \<Rightarrow> nat \<Rightarrow> universe \<Rightarrow> nat \<Rightarrow> nat \<Rightarrow> nat \<Rightarrow> error option \<times> universe \<times> nat" where
  "run_loop src k u steps maxLevel t =
     (if t < steps
      then (case step src k u t maxLevel of
              (Some e, u', k') \<Rightarrow> (Some e, u', k')
            | (None, u', k') \<Rightarrow> run_loop src k' u' steps maxLevel (t + 1))
      else (None, u, k))"
  by pat_completeness auto
termination
  by (relation "measure (\<lambda>(src, k, u, steps, maxLevel, t). steps - t)") auto

definition run ::
  "rand \<Rightarrow> nat \<Rightarrow> universe \<Rightarrow> nat \<Rightarrow> nat \<Rightarrow> error option \<times> universe \<times> nat" where
  "run src k u steps maxLevel = run_loop src k u steps maxLevel 1"

text \<open>\<open>get_state(t, level)\<close>: \<open>Inr None\<close> is the value \<open>undefined\<close>, and reading a level of
  an undefined \<open>this.levels[t]\<close> throws.\<close>

definition get_state :: "universe \<Rightarrow> nat \<Rightarrow> nat \<Rightarrow> error + vec option" where
  "get_state u t level =
     (if level = 0 then Inr (hist_at u t)
      else (case map_of (levels u) t of
              None \<Rightarrow> Inl TypeError
            | Some lt \<Rightarrow> Inr (map_of lt level)))"

function inf_inner :: "vec \<Rightarrow> vec \<Rightarrow> jsnum \<Rightarrow> int \<Rightarrow> nat \<Rightarrow> vec" where
  "inf_inner acc s w d j =
     (if int j < d
      then inf_inner (jset acc j (jadd (idx acc j) (jmul (idx s j) w))) s w d (j + 1)
      else acc)"
  by pat_completeness auto
termination
  by (relation "measure (\<lambda>(acc, s, w, d, j). nat (d - int j))") auto

text \<open>The loop over the sorted keys. A key of \<open>Object.keys\<close> always has a value; the
  \<open>None\<close> branch (indexing \<open>undefined\<close>) is there for totality.\<close>

primrec inf_outer :: "int \<Rightarrow> (nat \<times> vec) list \<Rightarrow> nat list \<Rightarrow> vec \<Rightarrow> error + vec" where
  "inf_outer d levelMap [] acc = Inr acc"
| "inf_outer d levelMap (i # keys) acc =
     (case map_of levelMap i of
        None \<Rightarrow> (if 0 < d then Inl TypeError else inf_outer d levelMap keys acc)
      | Some s \<Rightarrow>
          (let w = Val (1 / (real i + 1))
           in inf_outer d levelMap keys (inf_inner acc s w d 0)))"

definition infinite_state :: "universe \<Rightarrow> nat \<Rightarrow> error + vec" where
  "infinite_state u t =
     (case zeros (dim u) of
        Inl e \<Rightarrow> Inl e
      | Inr acc \<Rightarrow>
          (let levelMap = (case map_of (levels u) t of None \<Rightarrow> [] | Some lm \<Rightarrow> lm);
               keys = sort (map fst levelMap)
           in inf_outer (dim u) levelMap keys acc))"

section \<open>Retrocausal influence\<close>

text \<open>\<open>retro_influence(universe, t_future, t_past, strength)\<close>; the default strength 0.01
  is passed explicitly by a caller that omits it. \<open>universe.get_state(t_future)\<close> reads
  level 0. Past the guard both indices are inside \<open>history\<close>, so the two reads of
  \<open>history[t_past]\<close> are defined.\<close>

definition retro_influence ::
  "universe \<Rightarrow> nat \<Rightarrow> nat \<Rightarrow> jsnum \<Rightarrow> error option \<times> universe" where
  "retro_influence u t_future t_past strength =
     (if t_future \<ge> length (history u) \<or> t_past \<ge> length (history u) then (None, u)
      else (case get_state u t_future 0 of
              Inl e \<Rightarrow> (Some e, u)
            | Inr None \<Rightarrow> (Some TypeError, u)
            | Inr (Some future_state) \<Rightarrow>
                (let past_state = history u ! t_past;
                     delta = scaleVec (subVec future_state past_state) strength
                 in (None, u\<lparr>history := (history u)[t_past := addVec (history u ! t_past) delta]\<rparr>))))"

section \<open>Auxiliary notions used in the statements\<close>




text \<open>The scenario of the specification: dimension 4, the nonlinear model, the zero seed,
  \<open>run(3, 2)\<close>. No random number is drawn on this path.\<close>

definition seed4 :: vec where
  "seed4 = [Val 0, Val 0, Val 0, Val 0]"

definition U_seed :: universe where
  "U_seed = \<lparr>dim = 4, modelType = ''nonlinear'', systemType = ''isolated'',
             history = [seed4], levels = []\<rparr>"

definition U_run :: universe where
  "U_run = fst (snd (run (\<lambda>_. 0) 0 U_seed 3 2))"

text \<open>\<open>levels[t][l]\<close> when both keys are present.\<close>

definition level_at :: "universe \<Rightarrow> nat \<Rightarrow> nat \<Rightarrow> vec option" where
  "level_at u t l = (case map_of (levels u) t of None \<Rightarrow> None | Some lt \<Rightarrow> map_of lt l)"

text \<open>A sum of numbers, accumulated from 0 in list order.\<close>

definition jsum :: "jsnum list \<Rightarrow> jsnum" where
  "jsum xs = foldl jadd (Val 0) xs"

text \<open>Component \<open>j\<close> of the weighted sum of a list of (level, state) entries:
  the sum of \<open>state[j] * 1/(level+1)\<close> over the entries.\<close>

definition weighted_sum :: "(nat \<times> vec) list \<Rightarrow> nat \<Rightarrow> jsnum" where
  "weighted_sum entries j =
     jsum (map (\<lambda>(l, s). jmul (idx s j) (Val (1 / (real l + 1)))) entries)"

text \<open>The aggregate in the specification's words: the weighted sum over the derived
  levels \<open>l \<ge> 1\<close> only, with no level-0 term.\<close>

definition infinite_state_spec :: "universe \<Rightarrow> nat \<Rightarrow> vec" where
  "infinite_state_spec u t =
     (let levelMap = (case map_of (levels u) t of None \<Rightarrow> [] | Some lm \<Rightarrow> lm)
      in map (weighted_sum (filter (\<lambda>(l, s). 1 \<le> l) levelMap)) [0..<nat (dim u)])"

text \<open>The scenario universe after its first step alone.\<close>

definition U_step :: universe where
  "U_step = fst (snd (step (\<lambda>_. 0) 0 U_seed 1 2))"

text \<open>The damped velocity of oscillator pair \<open>i\<close>, before any noise:
  \<open>(v + dt * force) * (1 - gamma)\<close> with the spring and coupling force, the boundary pairs
  taking their own position for the missing neighbour.\<close>

definition osc_vdamp :: "real \<Rightarrow> vec \<Rightarrow> nat \<Rightarrow> nat \<Rightarrow> jsnum" where
  "osc_vdamp gamma prev n i =
     (let xi = idx prev (2 * i);
          left = (if i > 0 then idx prev (2 * (i - 1)) else xi);
          right = (if i < n - 1 then idx prev (2 * (i + 1)) else xi);
          force = jsub (jmul (Val (- 1)) xi)
                       (jmul (Val 0.1) (jadd (jsub xi left) (jsub xi right)))
      in jmul (jadd (idx prev (2 * i + 1)) (jmul (Val 0.05) force)) (Val (1 - gamma)))"

text \<open>The damping constant chosen by the system type.\<close>

definition osc_gamma :: "string \<Rightarrow> real" where
  "osc_gamma st =
     (if st = ''open'' then 0.05 else if st = ''closed'' then 0.01 else 0)"

text \<open>The noise made from one draw \<open>r\<close> of \<open>Math.random()\<close>: \<open>(r * 2 - 1) * 0.02\<close>.\<close>

definition osc_noise :: "real \<Rightarrow> real" where
  "osc_noise r = (r * 2 - 1) * 0.02"

text \<open>The paths on which no random number is drawn: the nonlinear model (the default
  for every model type other than the two named ones) with any system type, and the
  oscillator and Ising models unless the system type is \<open>open\<close>.\<close>

definition noise_free :: "string \<Rightarrow> string \<Rightarrow> bool" where
  "noise_free mt st = ((mt \<noteq> ''oscillators'' \<and> mt \<noteq> ''ising'') \<or> st \<noteq> ''open'')"

text \<open>A closed chain of two oscillator pairs, a universe that draws no random number.\<close>

definition U_osc :: universe where
  "U_osc = \<lparr>dim = 4, modelType = ''oscillators'', systemType = ''closed'',
            history = [[Val 1, Val 0, Val 0, Val 0]], levels = []\<rparr>"

text \<open>Every vector stored in \<open>history\<close> and in the levels table has length \<open>n\<close>.\<close>

definition all_length :: "nat \<Rightarrow> universe \<Rightarrow> bool" where
  "all_length n u =
     ((\<forall>v \<in> set (history u). length v = n) \<and>
      (\<forall>lt \<in> snd ` set (levels u). \<forall>v \<in> snd ` set lt. length v = n))"

text \<open>The universes that can arise from \<open>u0\<close> by calls of \<open>step\<close>, \<open>run\<close> and
  \<open>retro_influence\<close> with any arguments, in any order, including the state a call
  leaves behind when it throws.\<close>

inductive reachable :: "universe \<Rightarrow> universe \<Rightarrow> bool" for u0 :: universe where
  start: "reachable u0 u0"
| by_step: "reachable u0 u \<Longrightarrow> step src k u t maxLevel = (r, u', k') \<Longrightarrow> reachable u0 u'"
| by_run: "reachable u0 u \<Longrightarrow> run src k u steps maxLevel = (r, u', k') \<Longrightarrow> reachable u0 u'"
| by_retro:
    "reachable u0 u \<Longrightarrow> retro_influence u t_future t_past strength = (r, u') \<Longrightarrow> reachable u0 u'"

text \<open>The universes that arise from \<open>u0\<close> by calls of \<open>step\<close> and \<open>retro_influence\<close>
  with any arguments, in any order, together with a record \<open>g\<close> of the steps that
  returned: \<open>g t = Some (b, maxLevel)\<close> says that the latest call \<open>step(t, maxLevel)\<close>
  with \<open>t \<ge> 1\<close> returned normally and appended the state \<open>b\<close> to \<open>history\<close>. A step
  that throws leaves \<open>levels[t]\<close> unfinished and is struck from the record; \<open>step(0)\<close>
  does nothing. \<open>run\<close> is a loop of such steps.\<close>

inductive stepped :: "universe \<Rightarrow> universe \<Rightarrow> (nat \<Rightarrow> (vec \<times> nat) option) \<Rightarrow> bool"
  for u0 :: universe where
  init: "stepped u0 u0 (\<lambda>t. None)"
| step_returned:
    "stepped u0 u g \<Longrightarrow> step src k u t maxLevel = (None, u', k') \<Longrightarrow> 1 \<le> t \<Longrightarrow>
     stepped u0 u' (g(t \<mapsto> (last (history u'), maxLevel)))"
| step_nothing:
    "stepped u0 u g \<Longrightarrow> step src k u 0 maxLevel = (r, u', k') \<Longrightarrow> stepped u0 u' g"
| step_threw:
    "stepped u0 u g \<Longrightarrow> step src k u t maxLevel = (Some e, u', k') \<Longrightarrow>
     stepped u0 u' (g(t := None))"
| perturbed:
    "stepped u0 u g \<Longrightarrow> retro_influence u t_future t_past strength = (r, u') \<Longrightarrow>
     stepped u0 u' g"

text \<open>The scenario universe after \<open>run(3, 2)\<close> and \<open>retro_influence(universe, 0, 1, 1/2)\<close>,
  which rewrites \<open>history[1]\<close>.\<close>

definition U_pert :: universe where
  "U_pert = snd (retro_influence U_run 0 1 (Val (1 / 2)))"

text \<open>The record of the two steps of the scenario.\<close>

definition G_run :: "nat \<Rightarrow> (vec \<times> nat) option" where
  "G_run = [1 \<mapsto> ([Val 1, Val 1, Val 1, Val 1], 2), 2 \<mapsto> ([Val 1, Val 1, Val 1, Val 1], 2)]"

section \<open>Basic facts about the vector operations\<close>

declare osc_loop.simps [simp del] ising_loop.simps [simp del] level_loop.simps [simp del]
  run_loop.simps [simp del] inf_inner.simps [simp del]

lemma length_sinVec [simp]: "length (sinVec v) = length v"
  by (simp add: sinVec_def)

lemma length_cosVec [simp]: "length (cosVec v) = length v"
  by (simp add: cosVec_def)

lemma length_addVec [simp]: "length (addVec a b) = length a"
  by (simp add: addVec_def)

lemma length_subVec [simp]: "length (subVec a b) = length a"
  by (simp add: subVec_def)

lemma length_scaleVec [simp]: "length (scaleVec v s) = length v"
  by (simp add: scaleVec_def)

lemma length_blendVec [simp]: "length (blendVec a b alpha) = length a"
  by (simp add: blendVec_def)

lemma nth_addVec: "i < length a \<Longrightarrow> addVec a b ! i = jadd (a ! i) (idx b i)"
  by (simp add: addVec_def nth_enumerate_eq)

lemma nth_subVec: "i < length a \<Longrightarrow> subVec a b ! i = jsub (a ! i) (idx b i)"
  by (simp add: subVec_def nth_enumerate_eq)

lemma nth_scaleVec: "i < length v \<Longrightarrow> scaleVec v s ! i = jmul (v ! i) s"
  by (simp add: scaleVec_def)

lemma nth_blendVec:
  "i < length a \<Longrightarrow>
   blendVec a b alpha ! i = jadd (jmul (jsub (Val 1) alpha) (a ! i)) (jmul alpha (idx b i))"
  by (simp add: blendVec_def nth_enumerate_eq)

section \<open>The retrocausal operator\<close>

lemma retro_influence_in_range:
  assumes "t_future < length (history u)" and "t_past < length (history u)"
  shows "retro_influence u t_future t_past strength =
           (None, u\<lparr>history := (history u)[t_past :=
              addVec (history u ! t_past)
                (scaleVec (subVec (history u ! t_future) (history u ! t_past)) strength)]\<rparr>)"
  using assms by (simp add: retro_influence_def get_state_def hist_at_def)

lemma retro_component:
  assumes "i < length p"
  shows "addVec p (scaleVec (subVec f p) s) ! i = jadd (p ! i) (jmul (jsub (idx f i) (p ! i)) s)"
proof (cases "i < length f")
  case True
  with assms show ?thesis
    by (simp add: nth_addVec idx_def nth_scaleVec nth_subVec)
next
  case False
  with assms show ?thesis
    by (simp add: nth_addVec idx_def)
qed



lemma subVec_Val:
  "length ys = length xs \<Longrightarrow>
   subVec (map Val xs) (map Val ys) = map Val (map (\<lambda>i. xs ! i - ys ! i) [0..<length xs])"
  by (rule nth_equalityI) (simp_all add: nth_subVec idx_def)



section \<open>The concrete scenario, evaluated\<close>

lemmas scenario_defs = LivingUniverse_def seed4_def U_seed_def U_run_def run_def step_def
  level_body_def set_level_def evolve_def hist_at_def sinVec_def cosVec_def blendVec_def
  idx_def Let_def run_loop.simps level_loop.simps

lemma U_seed_eq:
  "U_seed = \<lparr>dim = 4, modelType = ''nonlinear'', systemType = ''isolated'',
             history = [seed4], levels = []\<rparr>"
  by (simp add: U_seed_def)

lemma U_seed_constructed:
  "LivingUniverse src k (Some 4) (Some ''nonlinear'') (Some ''isolated'') (Some seed4) =
     Inr (U_seed, k)"
  by (simp add: LivingUniverse_def U_seed_def)

lemma U_run_history:
  "history U_run = [[Val 0, Val 0, Val 0, Val 0], [Val 1, Val 1, Val 1, Val 1],
                    [Val 1, Val 1, Val 1, Val 1]]"
  by (simp add: scenario_defs)

lemma U_run_levels:
  "levels U_run =
     [(1, [(0, [Val 1, Val 1, Val 1, Val 1]),
           (1, [Val (sin 1 / 2 + cos 1 / 2), Val (sin 1 / 2 + cos 1 / 2),
                Val (sin 1 / 2 + cos 1 / 2), Val (sin 1 / 2 + cos 1 / 2)])]),
      (2, [(0, [Val 1, Val 1, Val 1, Val 1]),
           (1, [Val (sin 1 / 2 + cos 1 / 2), Val (sin 1 / 2 + cos 1 / 2),
                Val (sin 1 / 2 + cos 1 / 2), Val (sin 1 / 2 + cos 1 / 2)])])]"
  by (simp add: scenario_defs)

lemma evolve_total:
  "\<exists>v k'. evolve src k u (Some p) (Some m) level = Inr (v, k')"
  by (simp add: evolve_def Let_def)

lemma level_body_frame:
  assumes "level_body src k u t level = Inr (u', k')"
  shows "history u' = history u \<and> dim u' = dim u \<and> modelType u' = modelType u \<and>
         systemType u' = systemType u \<and>
         (\<exists>lt state. map_of (levels u) t = Some lt \<and>
            levels u' = AList.update t (AList.update level state lt) (levels u))"
  using assms
  by (auto simp: level_body_def set_level_def Let_def split: option.splits sum.splits if_splits)

lemma level_loop_frame:
  "level_loop src k u t maxLevel level = (r, u', k') \<Longrightarrow>
   history u' = history u \<and> dim u' = dim u \<and> modelType u' = modelType u \<and>
   systemType u' = systemType u"
proof (induction src k u t maxLevel level rule: level_loop.induct)
  case (1 src k u t maxLevel level)
  show ?case
  proof (cases "level < maxLevel")
    case False
    with "1.prems" show ?thesis by (simp add: level_loop.simps)
  next
    case True
    show ?thesis
    proof (cases "level_body src k u t level")
      case (Inl e)
      with True "1.prems" show ?thesis by (simp add: level_loop.simps)
    next
      case (Inr b)
      obtain u1 k1 where b: "b = (u1, k1)" by (cases b)
      from True Inr b "1.prems" have "level_loop src k1 u1 t maxLevel (level + 1) = (r, u', k')"
        by (simp add: level_loop.simps)
      from "1.IH" [OF True Inr [unfolded b] refl this] level_body_frame [OF Inr [unfolded b]]
      show ?thesis by simp
    qed
  qed
qed

lemma update_append_new: "k \<notin> fst ` set al \<Longrightarrow> AList.update k v al = al @ [(k, v)]"
  by (induction al) auto

lemma map_of_update_same: "map_of (AList.update k v al) k = Some v"
  by (simp add: update_conv')

lemma level_loop_levels:
  assumes "level_loop src k u t maxLevel level = (None, u', k')"
    and "map_of (levels u) t = Some lt" and "map fst lt = [0..<level]"
  shows "\<exists>rest. map_of (levels u') t = Some (lt @ rest) \<and>
                map fst rest = [level..<max level maxLevel]"
  using assms
proof (induction src k u t maxLevel level arbitrary: lt rule: level_loop.induct)
  case (1 src k u t maxLevel level)
  show ?case
  proof (cases "level < maxLevel")
    case False
    with "1.prems" show ?thesis by (simp add: level_loop.simps max_def)
  next
    case True
    show ?thesis
    proof (cases "level_body src k u t level")
      case (Inl e)
      with True "1.prems" show ?thesis by (simp add: level_loop.simps)
    next
      case (Inr b)
      obtain u1 k1 where b: "b = (u1, k1)" by (cases b)
      from True Inr b "1.prems" have run: "level_loop src k1 u1 t maxLevel (level + 1) = (None, u', k')"
        by (simp add: level_loop.simps)
      from level_body_frame [OF Inr [unfolded b]] "1.prems"(2)
      obtain state where l1: "levels u1 = AList.update t (AList.update level state lt) (levels u)"
        by auto
      have new: "level \<notin> fst ` set lt"
        using "1.prems"(3) by (metis atLeastLessThan_iff less_irrefl list.set_map set_upt)
      have m1: "map_of (levels u1) t = Some (lt @ [(level, state)])"
        by (simp add: l1 map_of_update_same update_append_new [OF new])
      have k1: "map fst (lt @ [(level, state)]) = [0..<level + 1]"
        using "1.prems"(3) by simp
      from "1.IH" [OF True Inr [unfolded b] refl run m1 k1]
      obtain rest where r: "map_of (levels u') t = Some ((lt @ [(level, state)]) @ rest)"
        and kr: "map fst rest = [level + 1..<max (level + 1) maxLevel]"
        by blast
      have "map fst ((level, state) # rest) = [level..<max level maxLevel]"
        using True kr by (simp add: max_def upt_conv_Cons)
      with r show ?thesis
        by (metis append.assoc append_Cons append_Nil)
    qed
  qed
qed

lemma step_result:
  assumes "step src k u t maxLevel = (None, u', k')" and "1 \<le> t"
  shows "\<exists>base rest. history u' = history u @ [base] \<and>
           map_of (levels u') t = Some ((0, base) # rest) \<and>
           map fst rest = [1..<max 1 maxLevel] \<and>
           dim u' = dim u \<and> modelType u' = modelType u \<and> systemType u' = systemType u"
proof -
  let ?u1 = "u\<lparr>levels := AList.update t [] (levels u)\<rparr>"
  let ?prev = "hist_at ?u1 (t - 1)"
  let ?mem = "if t > 1 then hist_at ?u1 (t - 2) else ?prev"
  have st: "step src k u t maxLevel =
      (case evolve src k ?u1 ?prev ?mem 0 of
         Inl e \<Rightarrow> (Some e, ?u1, k)
       | Inr (base_now, k1) \<Rightarrow>
           (case set_level (?u1\<lparr>history := history ?u1 @ [base_now]\<rparr>) t 0 base_now of
              Inl e \<Rightarrow> (Some e, ?u1\<lparr>history := history ?u1 @ [base_now]\<rparr>, k1)
            | Inr u3 \<Rightarrow> level_loop src k1 u3 t maxLevel 1))"
    unfolding step_def Let_def using assms(2) by simp
  show ?thesis
  proof (cases "evolve src k ?u1 ?prev ?mem 0")
    case (Inl e)
    with st assms(1) show ?thesis by simp
  next
    case (Inr b)
    obtain base k1 where b: "b = (base, k1)" by (cases b)
    let ?u2 = "?u1\<lparr>history := history ?u1 @ [base]\<rparr>"
    let ?u3 = "?u2\<lparr>levels := AList.update t [(0, base)] (levels ?u2)\<rparr>"
    have s3: "set_level ?u2 t 0 base = Inr ?u3"
      by (simp add: set_level_def map_of_update_same)
    from st assms(1) Inr b s3 have loop: "level_loop src k1 ?u3 t maxLevel 1 = (None, u', k')"
      by simp
    have m3: "map_of (levels ?u3) t = Some [(0, base)]"
      by (simp add: map_of_update_same)
    have "map fst [(0::nat, base)] = [0..<1]" by simp
    from level_loop_levels [OF loop m3 this]
    obtain rest where "map_of (levels u') t = Some ([(0, base)] @ rest)"
      and "map fst rest = [1..<max 1 maxLevel]"
      by auto
    moreover from level_loop_frame [OF loop]
    have "history u' = history u @ [base]" "dim u' = dim u" "modelType u' = modelType u"
      "systemType u' = systemType u"
      by simp_all
    ultimately show ?thesis by auto
  qed
qed
section \<open>The aggregate over the levels\<close>

lemma jset_in_range: "i < length v \<Longrightarrow> jset v i x = v[i := x]"
  by (simp add: jset_def)

lemma inf_inner_nth:
  "length acc = nat d \<Longrightarrow>
   length (inf_inner acc s w d j) = nat d \<and>
   (\<forall>i < nat d. inf_inner acc s w d j ! i =
      (if i < j then acc ! i else jadd (acc ! i) (jmul (idx s i) w)))"
proof (induction acc s w d j rule: inf_inner.induct)
  case (1 acc s w d j)
  show ?case
  proof (cases "int j < d")
    case False
    then have "nat d \<le> j" by simp
    with False "1.prems" show ?thesis by (simp add: inf_inner.simps)
  next
    case True
    let ?acc = "jset acc j (jadd (idx acc j) (jmul (idx s j) w))"
    from True "1.prems" have j: "j < length acc" by simp
    then have acc': "?acc = acc[j := jadd (acc ! j) (jmul (idx s j) w)]"
      by (simp add: jset_in_range idx_def)
    then have len: "length ?acc = nat d" using "1.prems" by simp
    from "1.IH" [OF True len]
    have ih: "length (inf_inner ?acc s w d (j + 1)) = nat d"
      "\<And>i. i < nat d \<Longrightarrow> inf_inner ?acc s w d (j + 1) ! i =
         (if i < j + 1 then ?acc ! i else jadd (?acc ! i) (jmul (idx s i) w))"
      by simp_all
    have unf: "inf_inner acc s w d j = inf_inner ?acc s w d (j + 1)"
      using True by (subst inf_inner.simps) simp
    show ?thesis
    proof (intro conjI allI impI)
      show "length (inf_inner acc s w d j) = nat d" unfolding unf by (rule ih(1))
    next
      fix i assume i: "i < nat d"
      with "1.prems" have "i < length acc" by simp
      then show "inf_inner acc s w d j ! i =
          (if i < j then acc ! i else jadd (acc ! i) (jmul (idx s i) w))"
        using ih(2) [OF i] j unfolding unf acc'
        by (cases "i = j") (auto simp add: nth_list_update)
    qed
  qed
qed

lemma inf_outer_entries:
  assumes "length acc = nat d" and "distinct (map fst lm0)" and "set es \<subseteq> set lm0"
  shows "inf_outer d lm0 (map fst es) acc =
           Inr (map (\<lambda>j. foldl jadd (acc ! j)
                  (map (\<lambda>(l, s). jmul (idx s j) (Val (1 / (real l + 1)))) es)) [0..<nat d])"
  using assms
proof (induction es arbitrary: acc)
  case Nil
  then show ?case by (simp add: map_nth [symmetric] del: map_nth) (metis map_nth)
next
  case (Cons e es)
  obtain l s where e: "e = (l, s)" by (cases e)
  from Cons.prems e have look: "map_of lm0 l = Some s" by simp
  let ?acc = "inf_inner acc s (Val (1 / (real l + 1))) d 0"
  from inf_inner_nth [OF Cons.prems(1), of s "Val (1 / (real l + 1))" 0]
  have len: "length ?acc = nat d"
    and nth: "\<And>i. i < nat d \<Longrightarrow> ?acc ! i = jadd (acc ! i) (jmul (idx s i) (Val (1 / (real l + 1))))"
    by simp_all
  from Cons.prems have sub: "set es \<subseteq> set lm0" by simp
  have "inf_outer d lm0 (map fst (e # es)) acc = inf_outer d lm0 (map fst es) ?acc"
    by (simp add: e look)
  also note Cons.IH [OF len Cons.prems(2) sub]
  finally show ?case by (simp add: e nth)
qed

lemma infinite_state_sorted:
  assumes "map_of (levels u) t = Some lm" and "0 \<le> dim u \<and> dim u \<le> MAX_ARRAY_LENGTH"
    and "sorted (map fst lm)" and "distinct (map fst lm)"
  shows "infinite_state u t = Inr (map (weighted_sum lm) [0..<nat (dim u)])"
proof -
  have keys: "sort (map fst lm) = map fst lm"
    using assms(3) by (simp add: sorted_sort_id)
  have "infinite_state u t = inf_outer (dim u) lm (map fst lm) (replicate (nat (dim u)) (Val 0))"
    using assms(1,2) by (simp add: infinite_state_def zeros_def keys)
  also have "\<dots> = Inr (map (\<lambda>j. foldl jadd (replicate (nat (dim u)) (Val 0) ! j)
                  (map (\<lambda>(l, s). jmul (idx s j) (Val (1 / (real l + 1)))) lm)) [0..<nat (dim u)])"
    by (rule inf_outer_entries) (simp_all add: assms(4))
  also have "\<dots> = Inr (map (weighted_sum lm) [0..<nat (dim u)])"
    by (simp add: weighted_sum_def jsum_def)
  finally show ?thesis .
qed

lemma step_None_eval: "step (\<lambda>_. 0) 0 U_seed 1 2 = (None, U_step, 0)"
  by (simp add: U_step_def scenario_defs)

lemma U_step_eq:
  "U_step = \<lparr>dim = 4, modelType = ''nonlinear'', systemType = ''isolated'',
             history = [[Val 0, Val 0, Val 0, Val 0], [Val 1, Val 1, Val 1, Val 1]],
             levels = [(1, [(0, [Val 1, Val 1, Val 1, Val 1]),
                            (1, [Val (sin 1 / 2 + cos 1 / 2), Val (sin 1 / 2 + cos 1 / 2),
                                 Val (sin 1 / 2 + cos 1 / 2), Val (sin 1 / 2 + cos 1 / 2)])])]\<rparr>"
  by (simp add: U_step_def scenario_defs)

lemma U_step_infinite_state:
  "infinite_state U_step 1 =
     Inr [Val (1 + (sin 1 / 2 + cos 1 / 2) / 2), Val (1 + (sin 1 / 2 + cos 1 / 2) / 2),
          Val (1 + (sin 1 / 2 + cos 1 / 2) / 2), Val (1 + (sin 1 / 2 + cos 1 / 2) / 2)]"
proof -
  let ?lm = "[(0, [Val 1, Val 1, Val 1, Val 1]),
              (1, [Val (sin 1 / 2 + cos 1 / 2), Val (sin 1 / 2 + cos 1 / 2),
                   Val (sin 1 / 2 + cos 1 / 2), Val (sin 1 / 2 + cos 1 / 2)])]"
  have "infinite_state U_step 1 = Inr (map (weighted_sum ?lm) [0..<nat (dim U_step)])"
    by (rule infinite_state_sorted) (simp_all add: U_step_eq MAX_ARRAY_LENGTH_def)
  then show ?thesis
    by (simp add: U_step_eq weighted_sum_def jsum_def idx_def upt_conv_Cons)
qed

section \<open>Steps taken in order never throw\<close>

lemma map_of_upt_keys:
  assumes "map fst lt = [0..<n]" and "l < n"
  shows "\<exists>v. map_of lt l = Some v"
proof -
  from assms have "l \<in> fst ` set lt"
    by (metis atLeastLessThan_iff le0 list.set_map set_upt)
  then show ?thesis
    by (metis domD dom_map_of_conv_image_fst)
qed

lemma map_of_update_other: "t' \<noteq> t \<Longrightarrow> map_of (AList.update t v al) t' = map_of al t'"
  by (simp add: update_conv')

lemma level_loop_ok:
  assumes "map_of (levels u) t = Some lt" and "map fst lt = [0..<level]" and "1 \<le> level"
    and "1 < t \<longrightarrow> (\<exists>lp. map_of (levels u) (t - 1) = Some lp \<and> map fst lp = [0..<max 1 maxLevel])"
  shows "fst (level_loop src k u t maxLevel level) = None"
  using assms
proof (induction src k u t maxLevel level arbitrary: lt rule: level_loop.induct)
  case (1 src k u t maxLevel level)
  show ?case
  proof (cases "level < maxLevel")
    case False
    then show ?thesis by (simp add: level_loop.simps)
  next
    case True
    from map_of_upt_keys [OF "1.prems"(2), of "level - 1"] "1.prems"(3)
    obtain p where p: "map_of lt (level - 1) = Some p" by auto
    have "\<exists>m. (if t > 1
                 then (case map_of (levels u) (t - 1) of
                         None \<Rightarrow> Inl TypeError
                       | Some lp \<Rightarrow> Inr (map_of lp (level - 1)))
                 else Inr (map_of lt (level - 1))) = Inr (Some m)"
    proof (cases "1 < t")
      case False
      with p show ?thesis by simp
    next
      case t: True
      with "1.prems"(4) obtain lp where lp: "map_of (levels u) (t - 1) = Some lp"
        and kp: "map fst lp = [0..<max 1 maxLevel]" by blast
      from True "1.prems"(3) have "level - 1 < max 1 maxLevel" by simp
      from map_of_upt_keys [OF kp this] obtain m where "map_of lp (level - 1) = Some m" by blast
      with t lp show ?thesis by simp
    qed
    then obtain m where m: "(if t > 1
                 then (case map_of (levels u) (t - 1) of
                         None \<Rightarrow> Inl TypeError
                       | Some lp \<Rightarrow> Inr (map_of lp (level - 1)))
                 else Inr (map_of lt (level - 1))) = Inr (Some m)" by blast
    from evolve_total obtain v k1 where ev: "evolve src k u (Some p) (Some m) level = Inr (v, k1)"
      by blast
    let ?u1 = "u\<lparr>levels := AList.update t (AList.update level v lt) (levels u)\<rparr>"
    have body: "level_body src k u t level = Inr (?u1, k1)"
      unfolding level_body_def Let_def set_level_def
      using "1.prems"(1) p m ev by (auto split: if_splits option.splits)
    have new: "level \<notin> fst ` set lt"
      using "1.prems"(2) by (metis atLeastLessThan_iff less_irrefl list.set_map set_upt)
    have m1: "map_of (levels ?u1) t = Some (lt @ [(level, v)])"
      by (simp add: map_of_update_same update_append_new [OF new])
    have k1: "map fst (lt @ [(level, v)]) = [0..<level + 1]"
      using "1.prems"(2) by simp
    have p1: "1 < t \<longrightarrow> (\<exists>lp. map_of (levels ?u1) (t - 1) = Some lp \<and>
                 map fst lp = [0..<max 1 maxLevel])"
      using "1.prems"(4) by (simp add: map_of_update_other)
    have "fst (level_loop src k1 ?u1 t maxLevel (level + 1)) = None"
      by (rule "1.IH" [OF True body refl m1 k1 _ p1]) simp
    with True body show ?thesis by (subst level_loop.simps) simp
  qed
qed

text \<open>The state in which \<open>step(t)\<close> is the next step of a run.\<close>

lemma step_ok:
  assumes "1 \<le> t" and "length (history u) = t"
    and "1 < t \<longrightarrow> (\<exists>lp. map_of (levels u) (t - 1) = Some lp \<and> map fst lp = [0..<max 1 maxLevel])"
  shows "fst (step src k u t maxLevel) = None"
proof -
  let ?u1 = "u\<lparr>levels := AList.update t [] (levels u)\<rparr>"
  let ?prev = "hist_at ?u1 (t - 1)"
  let ?mem = "if t > 1 then hist_at ?u1 (t - 2) else ?prev"
  have st: "step src k u t maxLevel =
      (case evolve src k ?u1 ?prev ?mem 0 of
         Inl e \<Rightarrow> (Some e, ?u1, k)
       | Inr (base_now, k1) \<Rightarrow>
           (case set_level (?u1\<lparr>history := history ?u1 @ [base_now]\<rparr>) t 0 base_now of
              Inl e \<Rightarrow> (Some e, ?u1\<lparr>history := history ?u1 @ [base_now]\<rparr>, k1)
            | Inr u3 \<Rightarrow> level_loop src k1 u3 t maxLevel 1))"
    unfolding step_def Let_def using assms(1) by simp
  from assms(1,2) have "\<exists>p. ?prev = Some p" by (simp add: hist_at_def)
  then obtain p where p: "?prev = Some p" by blast
  from assms(1,2) have "\<exists>m. ?mem = Some m" by (simp add: hist_at_def)
  then obtain m where m: "?mem = Some m" by blast
  from evolve_total obtain base k1 where "evolve src k ?u1 (Some p) (Some m) 0 = Inr (base, k1)"
    by blast
  then have ev: "evolve src k ?u1 ?prev ?mem 0 = Inr (base, k1)"
    using p m by simp
  let ?u2 = "?u1\<lparr>history := history ?u1 @ [base]\<rparr>"
  let ?u3 = "?u2\<lparr>levels := AList.update t [(0, base)] (levels ?u2)\<rparr>"
  have s3: "set_level ?u2 t 0 base = Inr ?u3"
    by (simp add: set_level_def map_of_update_same)
  have m3: "map_of (levels ?u3) t = Some [(0, base)]"
    by (simp add: map_of_update_same)
  have k3: "map fst [(0::nat, base)] = [0..<1]" by simp
  have p3: "1 < t \<longrightarrow> (\<exists>lp. map_of (levels ?u3) (t - 1) = Some lp \<and>
               map fst lp = [0..<max 1 maxLevel])"
    using assms(3) by (simp add: map_of_update_other)
  have "fst (level_loop src k1 ?u3 t maxLevel 1) = None"
    by (rule level_loop_ok [OF m3 k3 _ p3]) simp
  with st ev s3 show ?thesis by simp
qed

lemma run_loop_ok:
  assumes "1 \<le> t" and "length (history u) = t"
    and "1 < t \<longrightarrow> (\<exists>lp. map_of (levels u) (t - 1) = Some lp \<and> map fst lp = [0..<max 1 maxLevel])"
  shows "fst (run_loop src k u steps maxLevel t) = None"
  using assms
proof (induction src k u steps maxLevel t rule: run_loop.induct)
  case (1 src k u steps maxLevel t)
  show ?case
  proof (cases "t < steps")
    case False
    then show ?thesis by (simp add: run_loop.simps)
  next
    case True
    obtain r u1 k1 where s: "step src k u t maxLevel = (r, u1, k1)"
      by (cases "step src k u t maxLevel") auto
    from step_ok [OF "1.prems", of src k] s have r: "r = None" by simp
    from step_result [OF s [unfolded r] "1.prems"(1)]
    obtain base rest where h: "history u1 = history u @ [base]"
      and m: "map_of (levels u1) t = Some ((0, base) # rest)"
      and kr: "map fst rest = [1..<max 1 maxLevel]"
      by blast
    have l1: "length (history u1) = t + 1" using h "1.prems"(2) by simp
    have p1: "1 < t + 1 \<longrightarrow> (\<exists>lp. map_of (levels u1) (t + 1 - 1) = Some lp \<and>
                map fst lp = [0..<max 1 maxLevel])"
      using m kr by (simp add: upt_conv_Cons)
    have "fst (run_loop src k1 u1 steps maxLevel (t + 1)) = None"
      by (rule "1.IH" [OF True s [unfolded r, symmetric] refl refl _ l1 p1]) simp
    with True s r show ?thesis by (subst run_loop.simps) simp
  qed
qed

lemma run_ok: "length (history u) = 1 \<Longrightarrow> fst (run src k u steps maxLevel) = None"
  unfolding run_def by (rule run_loop_ok) simp_all

lemma LivingUniverse_fields:
  "LivingUniverse src k dim_arg mt st seed_arg = Inr (u, k') \<Longrightarrow>
   dim u = (case dim_arg of None \<Rightarrow> DEFAULT_DIM | Some x \<Rightarrow> if x = 0 then DEFAULT_DIM else x) \<and>
   history u = [case seed_arg of None \<Rightarrow> map (\<lambda>i. Val (src (k + i))) [0..<nat (dim u)]
                | Some s \<Rightarrow> s] \<and>
   levels u = []"
  by (auto simp add: LivingUniverse_def Let_def randVec_def
      split: option.splits prod.splits sum.splits if_splits)

section \<open>The oscillator chain\<close>

lemma osc_body_eq:
  "osc_body src k gamma noiseScale prev n i =
     (jadd (idx prev (2 * i)) (jmul (Val 0.05) (osc_vdamp gamma prev n i)),
      (if noiseScale > 0
       then jadd (osc_vdamp gamma prev n i) (Val ((src k * 2 - 1) * noiseScale))
       else osc_vdamp gamma prev n i),
      (if noiseScale > 0 then Suc k else k))"
  by (simp add: osc_body_def osc_vdamp_def Let_def Math_random_def)

lemma osc_loop_spec:
  "2 * n \<le> length nxt \<Longrightarrow>
   length (fst (osc_loop src k g ns prev n i nxt)) = length nxt \<and>
   snd (osc_loop src k g ns prev n i nxt) = (if ns > 0 then k + (n - i) else k) \<and>
   (\<forall>m. i \<le> m \<and> m < n \<longrightarrow>
      fst (osc_loop src k g ns prev n i nxt) ! (2 * m) =
        fst (osc_body src (if ns > 0 then k + (m - i) else k) g ns prev n m) \<and>
      fst (osc_loop src k g ns prev n i nxt) ! (2 * m + 1) =
        fst (snd (osc_body src (if ns > 0 then k + (m - i) else k) g ns prev n m))) \<and>
   (\<forall>j. (j < 2 * i \<or> 2 * n \<le> j) \<and> j < length nxt \<longrightarrow>
      fst (osc_loop src k g ns prev n i nxt) ! j = nxt ! j)"
proof (induction src k g ns prev n i nxt rule: osc_loop.induct)
  case (1 src k g ns prev n i nxt)
  show ?case
  proof (cases "i < n")
    case False
    then show ?thesis by (auto simp add: osc_loop.simps)
  next
    case True
    define x where "x = fst (osc_body src k g ns prev n i)"
    define v where "v = fst (snd (osc_body src k g ns prev n i))"
    define k1 where "k1 = (if ns > 0 then Suc k else k)"
    have b: "osc_body src k g ns prev n i = (x, v, k1)"
      by (simp add: x_def v_def k1_def osc_body_eq)
    define nxt1 where "nxt1 = jset (jset nxt (2 * i) x) (2 * i + 1) v"
    from True "1.prems" have r: "2 * i + 1 < length nxt" by simp
    then have n1: "nxt1 = nxt[2 * i := x, 2 * i + 1 := v]"
      by (simp add: nxt1_def jset_in_range)
    then have l1: "length nxt1 = length nxt" by simp
    have unf: "osc_loop src k g ns prev n i nxt = osc_loop src k1 g ns prev n (i + 1) nxt1"
      using True by (subst osc_loop.simps) (simp add: b nxt1_def)
    from "1.prems" l1 have "2 * n \<le> length (jset (jset nxt (2 * i) x) (2 * i + 1) v)"
      by (simp add: nxt1_def)
    from "1.IH" [OF True b [symmetric] refl this]
    have ih1: "length (fst (osc_loop src k1 g ns prev n (i + 1) nxt1)) = length nxt1"
      and ih2: "snd (osc_loop src k1 g ns prev n (i + 1) nxt1) = (if ns > 0 then k1 + (n - (i + 1)) else k1)"
      and ih3: "\<And>m. i + 1 \<le> m \<Longrightarrow> m < n \<Longrightarrow>
        fst (osc_loop src k1 g ns prev n (i + 1) nxt1) ! (2 * m) =
          fst (osc_body src (if ns > 0 then k1 + (m - (i + 1)) else k1) g ns prev n m) \<and>
        fst (osc_loop src k1 g ns prev n (i + 1) nxt1) ! (2 * m + 1) =
          fst (snd (osc_body src (if ns > 0 then k1 + (m - (i + 1)) else k1) g ns prev n m))"
      and ih4: "\<And>j. (j < 2 * (i + 1) \<or> 2 * n \<le> j) \<Longrightarrow> j < length nxt1 \<Longrightarrow>
        fst (osc_loop src k1 g ns prev n (i + 1) nxt1) ! j = nxt1 ! j"
      by (simp_all add: nxt1_def)
    show ?thesis
      unfolding unf
    proof (intro conjI allI impI)
      show "length (fst (osc_loop src k1 g ns prev n (i + 1) nxt1)) = length nxt"
        using ih1 l1 by simp
    next
      show "snd (osc_loop src k1 g ns prev n (i + 1) nxt1) = (if ns > 0 then k + (n - i) else k)"
      proof -
        have "(if ns > 0 then k1 + (n - (i + 1)) else k1) = (if ns > 0 then k + (n - i) else k)"
          using True unfolding k1_def by (cases "ns > 0") simp_all
        with ih2 show ?thesis by (simp only:)
      qed
    next
      fix m assume m: "i \<le> m \<and> m < n"
      show "fst (osc_loop src k1 g ns prev n (i + 1) nxt1) ! (2 * m) =
              fst (osc_body src (if ns > 0 then k + (m - i) else k) g ns prev n m)"
      proof (cases "m = i")
        case True
        have "fst (osc_loop src k1 g ns prev n (i + 1) nxt1) ! (2 * i) = nxt1 ! (2 * i)"
          using r l1 by (intro ih4) simp_all
        also have "\<dots> = x" using r by (simp add: n1)
        finally show ?thesis using True by (simp add: x_def)
      next
        case False
        with m have "i + 1 \<le> m" "m < n" by simp_all
        from ih3 [OF this] have "fst (osc_loop src k1 g ns prev n (i + 1) nxt1) ! (2 * m) =
            fst (osc_body src (if ns > 0 then k1 + (m - (i + 1)) else k1) g ns prev n m)"
          by simp
        moreover have "(if ns > 0 then k1 + (m - (i + 1)) else k1) = (if ns > 0 then k + (m - i) else k)"
          using \<open>i + 1 \<le> m\<close> unfolding k1_def by (cases "ns > 0") simp_all
        ultimately show ?thesis by simp
      qed
    next
      fix m assume m: "i \<le> m \<and> m < n"
      show "fst (osc_loop src k1 g ns prev n (i + 1) nxt1) ! (2 * m + 1) =
              fst (snd (osc_body src (if ns > 0 then k + (m - i) else k) g ns prev n m))"
      proof (cases "m = i")
        case True
        have "fst (osc_loop src k1 g ns prev n (i + 1) nxt1) ! (2 * i + 1) = nxt1 ! (2 * i + 1)"
          using r l1 by (intro ih4) simp_all
        also have "\<dots> = v" using r by (simp add: n1)
        finally show ?thesis using True by (simp add: v_def)
      next
        case False
        with m have "i + 1 \<le> m" "m < n" by simp_all
        from ih3 [OF this] have "fst (osc_loop src k1 g ns prev n (i + 1) nxt1) ! (2 * m + 1) =
            fst (snd (osc_body src (if ns > 0 then k1 + (m - (i + 1)) else k1) g ns prev n m))"
          by simp
        moreover have "(if ns > 0 then k1 + (m - (i + 1)) else k1) = (if ns > 0 then k + (m - i) else k)"
          using \<open>i + 1 \<le> m\<close> unfolding k1_def by (cases "ns > 0") simp_all
        ultimately show ?thesis by simp
      qed
    next
      fix j assume j: "(j < 2 * i \<or> 2 * n \<le> j) \<and> j < length nxt"
      with True have "(j < 2 * (i + 1) \<or> 2 * n \<le> j)" "j < length nxt1" "j \<noteq> 2 * i" "j \<noteq> 2 * i + 1"
        using l1 by auto
      from ih4 [OF this(1,2)] this(3,4)
      show "fst (osc_loop src k1 g ns prev n (i + 1) nxt1) ! j = nxt ! j"
        by (simp add: n1)
    qed
  qed
qed

lemma evolveOscillators_pair:
  assumes "2 * i + 1 < length prev"
  shows "\<exists>nxt k'. evolveOscillators src k prev st = (nxt, k') \<and>
           length nxt = length prev \<and>
           k' = (if st = ''open'' then k + length prev div 2 else k) \<and>
           nxt ! (2 * i) =
             jadd (prev ! (2 * i))
               (jmul (Val 0.05) (osc_vdamp (osc_gamma st) prev (length prev div 2) i)) \<and>
           nxt ! (2 * i + 1) =
             (if st = ''open''
              then jadd (osc_vdamp (osc_gamma st) prev (length prev div 2) i)
                        (Val (osc_noise (src (k + i))))
              else osc_vdamp (osc_gamma st) prev (length prev div 2) i)"
proof -
  let ?n = "length prev div 2"
  let ?g = "osc_gamma st"
  let ?ns = "if st = ''open'' then 0.02 else (0::real)"
  let ?loop = "osc_loop src k ?g ?ns prev ?n 0 prev"
  have le: "2 * ?n \<le> length prev" by simp
  from assms have i: "i < ?n" by simp
  note sp = osc_loop_spec [OF le, of src k ?g ?ns prev 0]
  from sp have len: "length (fst ?loop) = length prev" by blast
  from sp have k': "snd ?loop = (if st = ''open'' then k + ?n else k)" by simp
  from sp i have x: "fst ?loop ! (2 * i) = fst (osc_body src (if st = ''open'' then k + i else k) ?g ?ns prev ?n i)"
    by simp
  from sp i have v: "fst ?loop ! (2 * i + 1) =
      fst (snd (osc_body src (if st = ''open'' then k + i else k) ?g ?ns prev ?n i))"
    by simp
  let ?nxt = "if length prev mod 2 = 1
              then jset (fst ?loop) (length prev - 1) (idx prev (length prev - 1)) else fst ?loop"
  have ev: "evolveOscillators src k prev st = (?nxt, snd ?loop)"
    by (simp add: evolveOscillators_def osc_gamma_def Let_def split: prod.splits)
  have odd: "length prev mod 2 = 1 \<Longrightarrow> 2 * i + 1 < length prev - 1"
    using assms by presburger
  have nl: "length ?nxt = length prev" using len by (simp add: jset_in_range)
  have nx: "?nxt ! (2 * i) = fst ?loop ! (2 * i)"
    using odd len by (auto simp add: jset_in_range)
  have nv: "?nxt ! (2 * i + 1) = fst ?loop ! (2 * i + 1)"
    using odd len by (auto simp add: jset_in_range)
  from assms have pi: "idx prev (2 * i) = prev ! (2 * i)" by (simp add: idx_def)
  show ?thesis
    unfolding ev
    apply (intro exI conjI)
        apply (rule refl)
       apply (rule nl)
      apply (rule k')
     apply (simp only: nx x osc_body_eq fst_conv pi)
    apply (simp only: nv v osc_body_eq fst_conv snd_conv)
    apply (simp add: osc_noise_def)
    done
qed

section \<open>Paths that draw no random number\<close>

lemma osc_loop_canon:
  "ns \<le> 0 \<Longrightarrow>
   osc_loop src k g ns prev n i nxt = (fst (osc_loop (\<lambda>_. 0) 0 g ns prev n i nxt), k)"
proof (induction src k g ns prev n i nxt rule: osc_loop.induct)
  case (1 src k g ns prev n i nxt)
  show ?case
  proof (cases "i < n")
    case False
    then show ?thesis by (simp add: osc_loop.simps)
  next
    case True
    define x where "x = jadd (idx prev (2 * i)) (jmul (Val 0.05) (osc_vdamp g prev n i))"
    define v where "v = osc_vdamp g prev n i"
    from "1.prems" have b: "osc_body src k g ns prev n i = (x, v, k)"
      and b0: "osc_body (\<lambda>_. 0) 0 g ns prev n i = (x, v, 0)"
      by (simp_all add: osc_body_eq x_def v_def)
    have "osc_loop src k g ns prev n i nxt =
            osc_loop src k g ns prev n (i + 1) (jset (jset nxt (2 * i) x) (2 * i + 1) v)"
      using True by (subst osc_loop.simps) (simp add: b)
    also have "\<dots> = (fst (osc_loop (\<lambda>_. 0) 0 g ns prev n (i + 1)
                          (jset (jset nxt (2 * i) x) (2 * i + 1) v)), k)"
      by (rule "1.IH" [OF True b [symmetric] refl "1.prems"])
    also have "osc_loop (\<lambda>_. 0) 0 g ns prev n (i + 1) (jset (jset nxt (2 * i) x) (2 * i + 1) v) =
                 osc_loop (\<lambda>_. 0) 0 g ns prev n i nxt"
      using True by (subst (2) osc_loop.simps) (simp add: b0)
    finally show ?thesis .
  qed
qed

lemma ising_loop_canon:
  "ns \<le> 0 \<Longrightarrow>
   ising_loop src k ns m d i nxt = (fst (ising_loop (\<lambda>_. 0) 0 ns m d i nxt), k)"
proof (induction src k ns m d i nxt rule: ising_loop.induct)
  case (1 src k ns m d i nxt)
  show ?case
  proof (cases "i < d")
    case False
    then show ?thesis by (simp add: ising_loop.simps)
  next
    case True
    let ?nxt = "jset nxt i (jtanh (jmul (Val 1) (jadd (jmul (Val 1) m) (Val 0))))"
    have "ising_loop src k ns m d i nxt = ising_loop src k ns m d (i + 1) ?nxt"
      using True "1.prems" by (subst ising_loop.simps) (simp add: Let_def)
    also have "\<dots> = (fst (ising_loop (\<lambda>_. 0) 0 ns m d (i + 1) ?nxt), k)"
      using "1.IH"(2) [OF True refl refl refl refl _ "1.prems"] "1.prems" by simp
    also have "ising_loop (\<lambda>_. 0) 0 ns m d (i + 1) ?nxt = ising_loop (\<lambda>_. 0) 0 ns m d i nxt"
      using True "1.prems" by (subst (2) ising_loop.simps) (simp add: Let_def)
    finally show ?thesis .
  qed
qed

lemma evolveOscillators_canon:
  "st \<noteq> ''open'' \<Longrightarrow>
   evolveOscillators src k prev st = (fst (evolveOscillators (\<lambda>_. 0) 0 prev st), k)"
  unfolding evolveOscillators_def Let_def
  by (subst osc_loop_canon) (simp_all add: case_prod_unfold)

lemma evolveIsing_canon:
  "st \<noteq> ''open'' \<Longrightarrow>
   evolveIsing src k prev st = (fst (evolveIsing (\<lambda>_. 0) 0 prev st), k)"
  unfolding evolveIsing_def Let_def
  by (subst ising_loop_canon) (simp_all add: case_prod_unfold)

lemma evolve_canon:
  assumes "noise_free (modelType u) (systemType u)"
  shows "evolve src k u p m l =
           (case evolve (\<lambda>_. 0) 0 u p m l of Inl e \<Rightarrow> Inl e | Inr (v, _) \<Rightarrow> Inr (v, k))"
proof (cases "modelType u = ''oscillators''")
  case True
  with assms have "systemType u \<noteq> ''open''" by (simp add: noise_free_def)
  from evolveOscillators_canon [OF this, of src k] True show ?thesis
    by (cases p) (simp_all add: evolve_def case_prod_unfold)
next
  case False
  show ?thesis
  proof (cases "modelType u = ''ising''")
    case True
    with assms have "systemType u \<noteq> ''open''" by (simp add: noise_free_def)
    from evolveIsing_canon [OF this, of src k] True show ?thesis
      by (cases p) (simp_all add: evolve_def case_prod_unfold)
  next
    case ni: False
    with False show ?thesis
      by (cases p; cases m) (simp_all add: evolve_def Let_def)
  qed
qed

lemma level_body_canon:
  assumes "noise_free (modelType u) (systemType u)"
  shows "level_body src k u t l =
           (case level_body (\<lambda>_. 0) 0 u t l of Inl e \<Rightarrow> Inl e | Inr (u', _) \<Rightarrow> Inr (u', k))"
  unfolding level_body_def Let_def
  by (subst evolve_canon [OF assms]) (auto split: option.splits sum.splits prod.splits)

lemma level_loop_canon:
  "noise_free (modelType u) (systemType u) \<Longrightarrow>
   level_loop src k u t maxLevel level =
     (case level_loop (\<lambda>_. 0) 0 u t maxLevel level of (r, u', _) \<Rightarrow> (r, u', k))"
proof (induction src k u t maxLevel level rule: level_loop.induct)
  case (1 src k u t maxLevel level)
  note nf = "1.prems"
  show ?case
  proof (cases "level < maxLevel")
    case False
    then show ?thesis by (simp add: level_loop.simps)
  next
    case True
    show ?thesis
    proof (cases "level_body (\<lambda>_. 0) 0 u t level")
      case (Inl e)
      with level_body_canon [OF nf, of src k t level]
      have "level_body src k u t level = Inl e" by simp
      with Inl True show ?thesis by (simp add: level_loop.simps)
    next
      case (Inr b)
      obtain u1 k0 where b: "b = (u1, k0)" by (cases b)
      from level_body_canon [OF nf, of "\<lambda>_. 0" 0 t level] Inr b have k0: "k0 = 0" by simp
      from level_body_canon [OF nf, of src k t level] Inr b
      have body: "level_body src k u t level = Inr (u1, k)" by simp
      from level_body_frame [OF body] nf
      have nf1: "noise_free (modelType u1) (systemType u1)" by simp
      have "level_loop src k u t maxLevel level = level_loop src k u1 t maxLevel (level + 1)"
        using True body by (subst level_loop.simps) simp
      also have "\<dots> = (case level_loop (\<lambda>_. 0) 0 u1 t maxLevel (level + 1) of
                         (r, u', _) \<Rightarrow> (r, u', k))"
        by (rule "1.IH" [OF True body refl nf1])
      also have "level_loop (\<lambda>_. 0) 0 u1 t maxLevel (level + 1) =
                   level_loop (\<lambda>_. 0) 0 u t maxLevel level"
        using True Inr b k0 by (subst (2) level_loop.simps) simp
      finally show ?thesis .
    qed
  qed
qed

lemma step_frame:
  "step src k u t maxLevel = (r, u', k') \<Longrightarrow>
   dim u' = dim u \<and> modelType u' = modelType u \<and> systemType u' = systemType u"
  unfolding step_def Let_def set_level_def
  by (auto split: if_splits sum.splits prod.splits option.splits dest!: level_loop_frame)

lemma step_canon:
  assumes "noise_free (modelType u) (systemType u)"
  shows "step src k u t maxLevel =
           (case step (\<lambda>_. 0) 0 u t maxLevel of (r, u', _) \<Rightarrow> (r, u', k))"
proof (cases "t = 0")
  case True
  then show ?thesis by (simp add: step_def)
next
  case False
  let ?u1 = "u\<lparr>levels := AList.update t [] (levels u)\<rparr>"
  let ?prev = "hist_at ?u1 (t - 1)"
  let ?mem = "if t > 1 then hist_at ?u1 (t - 2) else ?prev"
  have st: "\<And>src k. step src k u t maxLevel =
      (case evolve src k ?u1 ?prev ?mem 0 of
         Inl e \<Rightarrow> (Some e, ?u1, k)
       | Inr (base_now, k1) \<Rightarrow>
           (case set_level (?u1\<lparr>history := history ?u1 @ [base_now]\<rparr>) t 0 base_now of
              Inl e \<Rightarrow> (Some e, ?u1\<lparr>history := history ?u1 @ [base_now]\<rparr>, k1)
            | Inr u3 \<Rightarrow> level_loop src k1 u3 t maxLevel 1))"
    unfolding step_def Let_def using False by simp
  from assms have nf1: "noise_free (modelType ?u1) (systemType ?u1)" by simp
  show ?thesis
  proof (cases "evolve (\<lambda>_. 0) 0 ?u1 ?prev ?mem 0")
    case (Inl e)
    with evolve_canon [OF nf1, of src k ?prev ?mem 0] have "evolve src k ?u1 ?prev ?mem 0 = Inl e"
      by simp
    with Inl show ?thesis unfolding st by simp
  next
    case (Inr b)
    obtain base k0 where b: "b = (base, k0)" by (cases b)
    from evolve_canon [OF nf1, of "\<lambda>_. 0" 0 ?prev ?mem 0] Inr b have k0: "k0 = 0" by simp
    from evolve_canon [OF nf1, of src k ?prev ?mem 0] Inr b
    have ev: "evolve src k ?u1 ?prev ?mem 0 = Inr (base, k)" by simp
    let ?u2 = "?u1\<lparr>history := history ?u1 @ [base]\<rparr>"
    let ?u3 = "?u2\<lparr>levels := AList.update t [(0, base)] (levels ?u2)\<rparr>"
    have s3: "set_level ?u2 t 0 base = Inr ?u3"
      by (simp add: set_level_def map_of_update_same)
    from assms have nf3: "noise_free (modelType ?u3) (systemType ?u3)" by simp
    have "step src k u t maxLevel = level_loop src k ?u3 t maxLevel 1"
      by (simp only: st ev s3 sum.case prod.case)
    also have "\<dots> = (case level_loop (\<lambda>_. 0) 0 ?u3 t maxLevel 1 of (r, u', _) \<Rightarrow> (r, u', k))"
      by (rule level_loop_canon [OF nf3])
    also have "level_loop (\<lambda>_. 0) 0 ?u3 t maxLevel 1 = step (\<lambda>_. 0) 0 u t maxLevel"
      by (simp only: st Inr b k0 s3 sum.case prod.case)
    finally show ?thesis .
  qed
qed

lemma run_loop_canon:
  "noise_free (modelType u) (systemType u) \<Longrightarrow>
   run_loop src k u steps maxLevel t =
     (case run_loop (\<lambda>_. 0) 0 u steps maxLevel t of (r, u', _) \<Rightarrow> (r, u', k))"
proof (induction src k u steps maxLevel t rule: run_loop.induct)
  case (1 src k u steps maxLevel t)
  note nf = "1.prems"
  show ?case
  proof (cases "t < steps")
    case False
    then show ?thesis by (simp add: run_loop.simps)
  next
    case True
    obtain r u1 k0 where s0: "step (\<lambda>_. 0) 0 u t maxLevel = (r, u1, k0)"
      by (cases "step (\<lambda>_. 0) 0 u t maxLevel") auto
    from step_canon [OF nf, of "\<lambda>_. 0" 0 t maxLevel] s0 have k0: "k0 = 0" by simp
    from step_canon [OF nf, of src k t maxLevel] s0
    have s: "step src k u t maxLevel = (r, u1, k)" by simp
    show ?thesis
    proof (cases r)
      case (Some e)
      with True s s0 show ?thesis by (simp add: run_loop.simps)
    next
      case None
      from step_frame [OF s] nf have nf1: "noise_free (modelType u1) (systemType u1)" by simp
      have "run_loop src k u steps maxLevel t = run_loop src k u1 steps maxLevel (t + 1)"
        using True s None by (subst run_loop.simps) simp
      also have "\<dots> = (case run_loop (\<lambda>_. 0) 0 u1 steps maxLevel (t + 1) of
                          (r, u', _) \<Rightarrow> (r, u', k))"
        by (rule "1.IH" [OF True s [unfolded None, symmetric] refl refl nf1])
      also have "run_loop (\<lambda>_. 0) 0 u1 steps maxLevel (t + 1) =
                   run_loop (\<lambda>_. 0) 0 u steps maxLevel t"
        using True s0 None k0 by (subst (2) run_loop.simps) simp
      finally show ?thesis .
    qed
  qed
qed

section \<open>Lengths of the stored vectors\<close>

lemma length_jset_in_range: "i < length v \<Longrightarrow> length (jset v i x) = length v"
  by (simp add: jset_def)

lemma length_evolveOscillators: "length (fst (evolveOscillators src k prev st)) = length prev"
proof -
  let ?n = "length prev div 2"
  have le: "2 * ?n \<le> length prev" by simp
  have "\<And>g ns. length (fst (osc_loop src k g ns prev ?n 0 prev)) = length prev"
    using osc_loop_spec [OF le] by blast
  then show ?thesis
    by (auto simp add: evolveOscillators_def Let_def case_prod_unfold length_jset_in_range)
qed

lemma ising_loop_length:
  "length nxt = d \<Longrightarrow> length (fst (ising_loop src k ns m d i nxt)) = d"
proof (induction src k ns m d i nxt rule: ising_loop.induct)
  case (1 src k ns m d i nxt)
  show ?case
  proof (cases "i < d")
    case False
    with "1.prems" show ?thesis by (simp add: ising_loop.simps)
  next
    case True
    with "1.prems" have l: "\<And>x. length (jset nxt i x) = d"
      by (simp add: length_jset_in_range)
    show ?thesis
    proof (cases "ns > 0")
      case ns: True
      obtain r k1 where mr: "Math_random src k = (r, k1)" by (cases "Math_random src k")
      from "1.IH"(1) [OF True refl refl refl refl ns mr [symmetric] l]
      show ?thesis using True ns mr by (subst ising_loop.simps) (simp add: Let_def)
    next
      case ns: False
      from "1.IH"(2) [OF True refl refl refl refl ns l]
      show ?thesis using True ns by (subst ising_loop.simps) (simp add: Let_def)
    qed
  qed
qed

lemma length_evolveIsing: "length (fst (evolveIsing src k prev st)) = length prev"
  by (simp add: evolveIsing_def Let_def ising_loop_length)

lemma evolve_length:
  assumes "evolve src k u prev mem l = Inr (v, k')"
  shows "\<exists>p. prev = Some p \<and> length v = length p"
proof (cases prev)
  case None
  with assms show ?thesis by (simp add: evolve_def split: if_splits)
next
  case (Some p)
  from assms Some have "length v = length p"
    using length_evolveOscillators [of src k p "systemType u"]
      length_evolveIsing [of src k p "systemType u"]
    by (auto simp add: evolve_def Let_def split: if_splits option.splits)
  with Some show ?thesis by simp
qed

lemma set_update_subset: "set (AList.update k v al) \<subseteq> insert (k, v) (set al)"
  by (induction al) auto

lemma all_length_levels_update:
  assumes "all_length n u" and "\<forall>v \<in> snd ` set lt. length v = n"
  shows "all_length n (u\<lparr>levels := AList.update t lt (levels u)\<rparr>)"
  using assms set_update_subset [of t lt "levels u"]
  by (fastforce simp add: all_length_def)

lemma all_length_lookup:
  assumes "all_length n u" and "map_of (levels u) t = Some lt"
  shows "\<forall>v \<in> snd ` set lt. length v = n"
proof -
  from assms(2) have "(t, lt) \<in> set (levels u)" by (rule map_of_SomeD)
  then have "lt \<in> snd ` set (levels u)" by force
  with assms(1) show ?thesis by (auto simp add: all_length_def)
qed

lemma level_body_all_length:
  assumes "level_body src k u t level = Inr (u', k')" and "all_length n u"
  shows "all_length n u'"
proof -
  from assms(1) obtain lt where lt: "map_of (levels u) t = Some lt"
    by (auto simp add: level_body_def split: option.splits)
  from assms(1) lt obtain mem state where
    ev: "evolve src k u (map_of lt (level - 1)) mem level = Inr (state, k')"
    and u': "u' = u\<lparr>levels := AList.update t (AList.update level state lt) (levels u)\<rparr>"
    by (auto simp add: level_body_def set_level_def Let_def split: sum.splits if_splits option.splits)
  from evolve_length [OF ev] obtain p where p: "map_of lt (level - 1) = Some p"
    and ls: "length state = length p" by blast
  note old = all_length_lookup [OF assms(2) lt]
  from p have "(level - 1, p) \<in> set lt" by (rule map_of_SomeD)
  then have "p \<in> snd ` set lt" by force
  with old ls have "length state = n" by auto
  with old set_update_subset [of level state lt]
  have "\<forall>v \<in> snd ` set (AList.update level state lt). length v = n" by fastforce
  from all_length_levels_update [OF assms(2) this] show ?thesis by (simp add: u')
qed

lemma level_loop_all_length:
  "level_loop src k u t maxLevel level = (r, u', k') \<Longrightarrow> all_length n u \<Longrightarrow> all_length n u'"
proof (induction src k u t maxLevel level rule: level_loop.induct)
  case (1 src k u t maxLevel level)
  show ?case
  proof (cases "level < maxLevel")
    case False
    with "1.prems" show ?thesis by (simp add: level_loop.simps)
  next
    case True
    show ?thesis
    proof (cases "level_body src k u t level")
      case (Inl e)
      with True "1.prems" show ?thesis by (simp add: level_loop.simps)
    next
      case (Inr b)
      obtain u1 k1 where b: "b = (u1, k1)" by (cases b)
      from True Inr b "1.prems"(1) have "level_loop src k1 u1 t maxLevel (level + 1) = (r, u', k')"
        by (simp add: level_loop.simps)
      from "1.IH" [OF True Inr [unfolded b] refl this]
        level_body_all_length [OF Inr [unfolded b] "1.prems"(2)]
      show ?thesis by simp
    qed
  qed
qed

lemma step_all_length:
  assumes "step src k u t maxLevel = (r, u', k')" and "all_length n u"
  shows "all_length n u'"
proof (cases "t = 0")
  case True
  with assms show ?thesis by (simp add: step_def)
next
  case False
  let ?u1 = "u\<lparr>levels := AList.update t [] (levels u)\<rparr>"
  let ?prev = "hist_at ?u1 (t - 1)"
  let ?mem = "if t > 1 then hist_at ?u1 (t - 2) else ?prev"
  have st: "step src k u t maxLevel =
      (case evolve src k ?u1 ?prev ?mem 0 of
         Inl e \<Rightarrow> (Some e, ?u1, k)
       | Inr (base_now, k1) \<Rightarrow>
           (case set_level (?u1\<lparr>history := history ?u1 @ [base_now]\<rparr>) t 0 base_now of
              Inl e \<Rightarrow> (Some e, ?u1\<lparr>history := history ?u1 @ [base_now]\<rparr>, k1)
            | Inr u3 \<Rightarrow> level_loop src k1 u3 t maxLevel 1))"
    unfolding step_def Let_def using False by simp
  have a1: "all_length n ?u1"
    by (rule all_length_levels_update [OF assms(2)]) simp
  show ?thesis
  proof (cases "evolve src k ?u1 ?prev ?mem 0")
    case (Inl e)
    with assms(1) a1 show ?thesis by (simp only: st sum.case prod.case) auto
  next
    case (Inr b)
    obtain base k1 where b: "b = (base, k1)" by (cases b)
    from evolve_length [OF Inr [unfolded b]] obtain p where p: "?prev = Some p"
      and lb: "length base = length p" by blast
    from p have "p \<in> set (history u)"
      by (auto simp add: hist_at_def split: if_splits)
    with assms(2) lb have ln: "length base = n" by (simp add: all_length_def)
    let ?u2 = "?u1\<lparr>history := history ?u1 @ [base]\<rparr>"
    let ?u3 = "?u2\<lparr>levels := AList.update t [(0, base)] (levels ?u2)\<rparr>"
    have s3: "set_level ?u2 t 0 base = Inr ?u3"
      by (simp add: set_level_def map_of_update_same)
    from a1 ln have a2: "all_length n ?u2" by (simp add: all_length_def)
    have a3: "all_length n ?u3"
      by (rule all_length_levels_update [OF a2]) (simp add: ln)
    from assms(1) have "level_loop src k1 ?u3 t maxLevel 1 = (r, u', k')"
      by (simp only: st Inr b s3 sum.case prod.case)
    from level_loop_all_length [OF this a3] show ?thesis .
  qed
qed

lemma run_loop_all_length:
  "run_loop src k u steps maxLevel t = (r, u', k') \<Longrightarrow> all_length n u \<Longrightarrow> all_length n u'"
proof (induction src k u steps maxLevel t rule: run_loop.induct)
  case (1 src k u steps maxLevel t)
  show ?case
  proof (cases "t < steps")
    case False
    with "1.prems" show ?thesis by (simp add: run_loop.simps)
  next
    case True
    obtain r1 u1 k1 where s: "step src k u t maxLevel = (r1, u1, k1)"
      by (cases "step src k u t maxLevel") auto
    note a1 = step_all_length [OF s "1.prems"(2)]
    show ?thesis
    proof (cases r1)
      case (Some e)
      with True s "1.prems"(1) a1 show ?thesis by (simp add: run_loop.simps)
    next
      case None
      from True s None "1.prems"(1) have "run_loop src k1 u1 steps maxLevel (t + 1) = (r, u', k')"
        by (simp add: run_loop.simps)
      from "1.IH" [OF True s [unfolded None, symmetric] refl refl this a1] show ?thesis .
    qed
  qed
qed

lemma run_loop_frame:
  "run_loop src k u steps maxLevel t = (r, u', k') \<Longrightarrow>
   dim u' = dim u \<and> modelType u' = modelType u \<and> systemType u' = systemType u"
proof (induction src k u steps maxLevel t rule: run_loop.induct)
  case (1 src k u steps maxLevel t)
  show ?case
  proof (cases "t < steps")
    case False
    with "1.prems" show ?thesis by (simp add: run_loop.simps)
  next
    case True
    obtain r1 u1 k1 where s: "step src k u t maxLevel = (r1, u1, k1)"
      by (cases "step src k u t maxLevel") auto
    note f1 = step_frame [OF s]
    show ?thesis
    proof (cases r1)
      case (Some e)
      with True s "1.prems"(1) f1 show ?thesis by (simp add: run_loop.simps)
    next
      case None
      from True s None "1.prems"(1) have "run_loop src k1 u1 steps maxLevel (t + 1) = (r, u', k')"
        by (simp add: run_loop.simps)
      from "1.IH" [OF True s [unfolded None, symmetric] refl refl this] f1 show ?thesis by simp
    qed
  qed
qed

lemma retro_influence_all_length:
  assumes "retro_influence u t_future t_past strength = (r, u')" and "all_length n u"
  shows "all_length n u' \<and> dim u' = dim u"
proof (cases "t_future < length (history u) \<and> t_past < length (history u)")
  case False
  with assms show ?thesis by (auto simp add: retro_influence_def)
next
  case True
  let ?new = "addVec (history u ! t_past)
                (scaleVec (subVec (history u ! t_future) (history u ! t_past)) strength)"
  from True assms(1) have u': "u' = u\<lparr>history := (history u)[t_past := ?new]\<rparr>"
    by (simp add: retro_influence_in_range)
  from True assms(2) have "length ?new = n" by (simp add: all_length_def)
  with assms(2) set_update_subset_insert [of "history u" t_past ?new]
  show ?thesis by (fastforce simp add: u' all_length_def)
qed

lemma reachable_all_length:
  assumes "reachable u0 u" and "all_length n u0"
  shows "all_length n u \<and> dim u = dim u0"
  using assms
proof (induction rule: reachable.induct)
  case start
  then show ?case by simp
next
  case (by_step u src k t maxLevel r u' k')
  from by_step.IH [OF by_step.prems] have a: "all_length n u" and d: "dim u = dim u0" by simp_all
  from step_all_length [OF by_step.hyps(2) a] step_frame [OF by_step.hyps(2)] d
  show ?case by simp
next
  case (by_run u src k steps maxLevel r u' k')
  from by_run.IH [OF by_run.prems] have a: "all_length n u" and d: "dim u = dim u0" by simp_all
  from by_run.hyps(2) have rl: "run_loop src k u steps maxLevel 1 = (r, u', k')"
    by (simp add: run_def)
  from run_loop_all_length [OF rl a] run_loop_frame [OF rl] d
  show ?case by simp
next
  case (by_retro u t_future t_past strength r u')
  from by_retro.IH [OF by_retro.prems] have a: "all_length n u" and d: "dim u = dim u0" by simp_all
  from retro_influence_all_length [OF by_retro.hyps(2) a] d
  show ?case by simp
qed

section \<open>What later calls keep of the levels table\<close>

lemma level_loop_keeps:
  "level_loop src k u t' maxLevel level = (r, u', k') \<Longrightarrow> t \<noteq> t' \<Longrightarrow>
   map_of (levels u') t = map_of (levels u) t"
proof (induction src k u t' maxLevel level rule: level_loop.induct)
  case (1 src k u t' maxLevel level)
  show ?case
  proof (cases "level < maxLevel")
    case False
    with "1.prems" show ?thesis by (simp add: level_loop.simps)
  next
    case True
    show ?thesis
    proof (cases "level_body src k u t' level")
      case (Inl e)
      with True "1.prems" show ?thesis by (simp add: level_loop.simps)
    next
      case (Inr b)
      obtain u1 k1 where b: "b = (u1, k1)" by (cases b)
      from True Inr b "1.prems"(1) have "level_loop src k1 u1 t' maxLevel (level + 1) = (r, u', k')"
        by (simp add: level_loop.simps)
      from "1.IH" [OF True Inr [unfolded b] refl this "1.prems"(2)]
      have "map_of (levels u') t = map_of (levels u1) t" .
      also from level_body_frame [OF Inr [unfolded b]] "1.prems"(2)
      have "map_of (levels u1) t = map_of (levels u) t"
        by (auto simp add: map_of_update_other)
      finally show ?thesis .
    qed
  qed
qed

lemma step_zero: "step src k u 0 maxLevel = (None, u, k)"
  by (simp add: step_def)

lemma step_keeps:
  assumes "step src k u t' maxLevel = (r, u', k')" and "t \<noteq> t'"
  shows "map_of (levels u') t = map_of (levels u) t"
proof (cases "t' = 0")
  case True
  with assms show ?thesis by (simp add: step_def)
next
  case False
  let ?u1 = "u\<lparr>levels := AList.update t' [] (levels u)\<rparr>"
  let ?prev = "hist_at ?u1 (t' - 1)"
  let ?mem = "if t' > 1 then hist_at ?u1 (t' - 2) else ?prev"
  have st: "step src k u t' maxLevel =
      (case evolve src k ?u1 ?prev ?mem 0 of
         Inl e \<Rightarrow> (Some e, ?u1, k)
       | Inr (base_now, k1) \<Rightarrow>
           (case set_level (?u1\<lparr>history := history ?u1 @ [base_now]\<rparr>) t' 0 base_now of
              Inl e \<Rightarrow> (Some e, ?u1\<lparr>history := history ?u1 @ [base_now]\<rparr>, k1)
            | Inr u3 \<Rightarrow> level_loop src k1 u3 t' maxLevel 1))"
    unfolding step_def Let_def using False by simp
  have k1: "map_of (levels ?u1) t = map_of (levels u) t"
    using assms(2) by (simp add: map_of_update_other)
  show ?thesis
  proof (cases "evolve src k ?u1 ?prev ?mem 0")
    case (Inl e)
    with assms(1) have "u' = ?u1" by (simp only: st sum.case prod.case) auto
    with k1 show ?thesis by simp
  next
    case (Inr b)
    obtain base k0 where b: "b = (base, k0)" by (cases b)
    let ?u2 = "?u1\<lparr>history := history ?u1 @ [base]\<rparr>"
    let ?u3 = "?u2\<lparr>levels := AList.update t' [(0, base)] (levels ?u2)\<rparr>"
    have s3: "set_level ?u2 t' 0 base = Inr ?u3"
      by (simp add: set_level_def map_of_update_same)
    from assms(1) have "level_loop src k0 ?u3 t' maxLevel 1 = (r, u', k')"
      by (simp only: st Inr b s3 sum.case prod.case)
    from level_loop_keeps [OF this assms(2)]
    have "map_of (levels u') t = map_of (levels ?u3) t" .
    also have "\<dots> = map_of (levels u) t"
      using assms(2) by (simp add: map_of_update_other)
    finally show ?thesis .
  qed
qed

lemma retro_influence_levels:
  "retro_influence u t_future t_past strength = (r, u') \<Longrightarrow>
   levels u' = levels u \<and> dim u' = dim u"
  by (auto simp add: retro_influence_def get_state_def hist_at_def Let_def
      split: if_splits sum.splits option.splits)

lemma stepped_levels:
  assumes "stepped u0 u g" and "g t = Some (b, maxLevel)"
  shows "\<exists>rest. map_of (levels u) t = Some ((0, b) # rest) \<and>
                map fst rest = [1..<max 1 maxLevel]"
  using assms
proof (induction arbitrary: t b maxLevel rule: stepped.induct)
  case init
  then show ?case by simp
next
  case (step_returned u g src k t' ml u' k')
  show ?case
  proof (cases "t = t'")
    case True
    with step_returned.prems have b: "b = last (history u')" and m: "maxLevel = ml" by simp_all
    from step_result [OF step_returned.hyps(2,3)]
    obtain base rest where "history u' = history u @ [base]"
      and "map_of (levels u') t' = Some ((0, base) # rest)"
      and "map fst rest = [1..<max 1 ml]"
      by blast
    with True b m show ?thesis by simp
  next
    case False
    with step_returned.prems have "g t = Some (b, maxLevel)" by simp
    from step_returned.IH [OF this] step_keeps [OF step_returned.hyps(2) False]
    show ?thesis by simp
  qed
next
  case (step_nothing u g src k ml r u' k')
  from step_nothing.hyps(2) have "u' = u" by (simp add: step_zero)
  with step_nothing.IH [OF step_nothing.prems] show ?case by simp
next
  case (step_threw u g src k t' ml e u' k')
  from step_threw.prems have ne: "t \<noteq> t'" and "g t = Some (b, maxLevel)"
    by (auto split: if_splits)
  from step_threw.IH [OF this(2)] step_keeps [OF step_threw.hyps(2) ne]
  show ?case by simp
next
  case (perturbed u g t_future t_past strength r u')
  from perturbed.IH [OF perturbed.prems] retro_influence_levels [OF perturbed.hyps(2)]
  show ?case by simp
qed

lemma run_loop_stepped:
  "stepped u0 u g \<Longrightarrow> run_loop src k u steps maxLevel t0 = (r, u', k') \<Longrightarrow> 1 \<le> t0 \<Longrightarrow>
   \<exists>g'. stepped u0 u' g' \<and>
        (\<forall>t. t < t0 \<or> steps \<le> t \<longrightarrow> g' t = g t) \<and>
        (r = None \<longrightarrow> (\<forall>t. t0 \<le> t \<and> t < steps \<longrightarrow> (\<exists>b. g' t = Some (b, maxLevel))))"
proof (induction src k u steps maxLevel t0 arbitrary: g rule: run_loop.induct)
  case (1 src k u steps maxLevel t0)
  show ?case
  proof (cases "t0 < steps")
    case False
    with "1.prems" have "u' = u" "r = None" by (simp_all add: run_loop.simps)
    with "1.prems"(1) False show ?thesis by auto
  next
    case True
    obtain r1 u1 k1 where s: "step src k u t0 maxLevel = (r1, u1, k1)"
      by (cases "step src k u t0 maxLevel") auto
    show ?thesis
    proof (cases r1)
      case (Some e)
      with True s "1.prems"(2) have "u' = u1" "r = Some e" by (simp_all add: run_loop.simps)
      moreover from stepped.step_threw [OF "1.prems"(1) s [unfolded Some]]
      have "stepped u0 u1 (g(t0 := None))" .
      moreover have "\<forall>t. t < t0 \<or> steps \<le> t \<longrightarrow> (g(t0 := None)) t = g t"
        using True by auto
      ultimately show ?thesis by blast
    next
      case None
      let ?g1 = "g(t0 \<mapsto> (last (history u1), maxLevel))"
      from stepped.step_returned [OF "1.prems"(1) s [unfolded None] "1.prems"(3)]
      have st1: "stepped u0 u1 ?g1" .
      from True s None "1.prems"(2) have rl: "run_loop src k1 u1 steps maxLevel (t0 + 1) = (r, u', k')"
        by (simp add: run_loop.simps)
      from "1.IH" [OF True s [unfolded None, symmetric] refl refl st1 rl]
      obtain g' where a: "stepped u0 u' g'"
        and b: "\<forall>t. t < t0 + 1 \<or> steps \<le> t \<longrightarrow> g' t = ?g1 t"
        and c: "r = None \<longrightarrow> (\<forall>t. t0 + 1 \<le> t \<and> t < steps \<longrightarrow> (\<exists>b. g' t = Some (b, maxLevel)))"
        by auto
      have "\<forall>t. t < t0 \<or> steps \<le> t \<longrightarrow> g' t = g t"
        using b True by auto
      moreover have "r = None \<longrightarrow> (\<forall>t. t0 \<le> t \<and> t < steps \<longrightarrow> (\<exists>b. g' t = Some (b, maxLevel)))"
      proof (intro impI allI)
        fix t assume rn: "r = None" and t: "t0 \<le> t \<and> t < steps"
        show "\<exists>b. g' t = Some (b, maxLevel)"
        proof (cases "t = t0")
          case True
          with b show ?thesis by simp
        next
          case False
          with t c rn show ?thesis by simp
        qed
      qed
      ultimately show ?thesis using a by blast
    qed
  qed
qed

lemma run_stepped:
  assumes "stepped u0 u g" and "run src k u steps maxLevel = (r, u', k')"
  shows "\<exists>g'. stepped u0 u' g' \<and> (\<forall>t. steps \<le> t \<longrightarrow> g' t = g t) \<and> g' 0 = g 0 \<and>
           (r = None \<longrightarrow> (\<forall>t. 1 \<le> t \<and> t < steps \<longrightarrow> (\<exists>b. g' t = Some (b, maxLevel))))"
proof -
  from assms(2) have "run_loop src k u steps maxLevel 1 = (r, u', k')" by (simp add: run_def)
  from run_loop_stepped [OF assms(1) this] show ?thesis by auto
qed

lemma step2_eval: "step (\<lambda>_. 0) 0 U_step 2 2 = (None, U_run, 0)"
  by (simp add: U_step_eq U_run_def U_seed_def seed4_def run_def step_def level_body_def
      set_level_def evolve_def hist_at_def sinVec_def cosVec_def blendVec_def idx_def Let_def
      run_loop.simps level_loop.simps)

lemma U_pert_eq:
  "retro_influence U_run 0 1 (Val (1 / 2)) = (None, U_pert) \<and>
   history U_pert = [[Val 0, Val 0, Val 0, Val 0],
                     [Val (1 / 2), Val (1 / 2), Val (1 / 2), Val (1 / 2)],
                     [Val 1, Val 1, Val 1, Val 1]] \<and>
   levels U_pert = levels U_run \<and> dim U_pert = 4"
proof -
  have r: "retro_influence U_run 0 1 (Val (1 / 2)) = (None, U_pert)"
    by (simp add: U_pert_def retro_influence_in_range U_run_history)
  have "history U_pert = [[Val 0, Val 0, Val 0, Val 0],
                     [Val (1 / 2), Val (1 / 2), Val (1 / 2), Val (1 / 2)],
                     [Val 1, Val 1, Val 1, Val 1]]"
    by (simp add: U_pert_def retro_influence_in_range U_run_history addVec_def subVec_def
        scaleVec_def idx_def)
  moreover from retro_influence_levels [OF r] have "levels U_pert = levels U_run"
    and "dim U_pert = dim U_run" by simp_all
  moreover have "dim U_run = 4"
    by (simp add: scenario_defs)
  ultimately show ?thesis using r by simp
qed

lemma stepped_scenario: "stepped U_seed U_pert G_run"
proof -
  have "stepped U_seed U_step ((\<lambda>t. None)(1 \<mapsto> (last (history U_step), 2)))"
    by (rule stepped.step_returned [OF stepped.init step_None_eval]) simp
  from stepped.step_returned [OF this step2_eval]
  have "stepped U_seed U_run
          ((\<lambda>t. None)(1 \<mapsto> (last (history U_step), 2), 2 \<mapsto> (last (history U_run), 2)))"
    by simp
  then have "stepped U_seed U_run G_run"
    by (simp add: G_run_def U_step_eq U_run_history)
  from stepped.perturbed [OF this] U_pert_eq show ?thesis by blast
qed

text \<open>The order of calls of the program: a whole \<open>run\<close>, then \<open>retro_influence\<close>, then
  \<open>infinite_state(t)\<close> for a time of the run.\<close>

lemma infinite_state_after_run:
  assumes "run src k u steps maxLevel = (None, u1, k1)"
    and "retro_influence u1 t_future t_past strength = (r, u2)"
    and "1 \<le> t \<and> t < steps" and "0 \<le> dim u \<and> dim u \<le> MAX_ARRAY_LENGTH"
  shows "\<exists>b rest. map_of (levels u2) t = Some ((0, b) # rest) \<and>
           map fst rest = [1..<max 1 maxLevel] \<and>
           infinite_state u2 t = Inr (map (weighted_sum ((0, b) # rest)) [0..<nat (dim u2)])"
proof -
  from run_stepped [OF stepped.init assms(1)] assms(3)
  obtain g b where s1: "stepped u u1 g" and gt: "g t = Some (b, maxLevel)" by blast
  from stepped.perturbed [OF s1 assms(2)] have s2: "stepped u u2 g" .
  from stepped_levels [OF s2 gt]
  obtain rest where m: "map_of (levels u2) t = Some ((0, b) # rest)"
    and kr: "map fst rest = [1..<max 1 maxLevel]"
    by blast
  from assms(1) have "dim u1 = dim u" using run_loop_frame [of src k u steps maxLevel 1]
    by (simp add: run_def)
  with retro_influence_levels [OF assms(2)] assms(4)
  have d: "0 \<le> dim u2 \<and> dim u2 \<le> MAX_ARRAY_LENGTH" by simp
  have keys: "map fst ((0, b) # rest) = [0..<max 1 maxLevel]"
    by (simp add: kr upt_conv_Cons)
  have "infinite_state u2 t = Inr (map (weighted_sum ((0, b) # rest)) [0..<nat (dim u2)])"
    by (rule infinite_state_sorted [OF m d]) (simp_all only: keys sorted_upt distinct_upt)
  with m kr show ?thesis by blast
qed

section \<open>Claims about the retrocausal operator\<close>

text \<open>
  C3. With both indices inside \<open>history\<close>, \<open>retro_influence\<close> returns normally and replaces
  \<open>history[t_past]\<close> by \<open>history[t_past] + (get_state(t_future) - history[t_past]) * strength\<close>,
  component by component; the length of \<open>history\<close>, every other entry of \<open>history\<close>, the
  whole \<open>levels\<close> table and the parameters of the universe stay as they were.
\<close>

theorem retro_influence_frame:
  assumes "t_future < length (history u)" and "t_past < length (history u)"
  shows "\<exists>u'. retro_influence u t_future t_past strength = (None, u') \<and>
           history u' ! t_past =
             addVec (history u ! t_past)
               (scaleVec (subVec (history u ! t_future) (history u ! t_past)) strength) \<and>
           (\<forall>i < length (history u ! t_past).
              history u' ! t_past ! i =
                jadd (history u ! t_past ! i)
                  (jmul (jsub (idx (history u ! t_future) i) (history u ! t_past ! i)) strength)) \<and>
           length (history u' ! t_past) = length (history u ! t_past) \<and>
           length (history u') = length (history u) \<and>
           (\<forall>t. t \<noteq> t_past \<longrightarrow> history u' ! t = history u ! t) \<and>
           levels u' = levels u \<and>
           dim u' = dim u \<and> modelType u' = modelType u \<and> systemType u' = systemType u"
  using assms by (simp add: retro_influence_in_range retro_component)

theorem retro_influence_frame_witness:
  "2 < length (history U_run) \<and> 0 < length (history U_run) \<and>
   (\<exists>u'. retro_influence U_run 2 0 (Val (1 / 2)) = (None, u') \<and>
          history u' = [[Val (1 / 2), Val (1 / 2), Val (1 / 2), Val (1 / 2)],
                        [Val 1, Val 1, Val 1, Val 1], [Val 1, Val 1, Val 1, Val 1]] \<and>
          levels u' = levels U_run)"
proof -
  have h1: "2 < length (history U_run)" and h2: "0 < length (history U_run)"
    by (simp_all add: U_run_history)
  from retro_influence_frame [OF h1 h2, of "Val (1 / 2)"]
  obtain u' where r: "retro_influence U_run 2 0 (Val (1 / 2)) = (None, u')"
    and l: "levels u' = levels U_run"
    by blast
  from r have "history u' = [[Val (1 / 2), Val (1 / 2), Val (1 / 2), Val (1 / 2)],
                        [Val 1, Val 1, Val 1, Val 1], [Val 1, Val 1, Val 1, Val 1]]"
    by (auto simp add: retro_influence_def get_state_def hist_at_def U_run_history
        addVec_def subVec_def scaleVec_def idx_def)
  with h1 h2 r l show ?thesis by blast
qed

text \<open>
  C4. With \<open>t_future\<close> or \<open>t_past\<close> at or beyond the length of \<open>history\<close>,
  \<open>retro_influence\<close> returns normally, for every strength, and the universe (its
  \<open>history\<close> and its \<open>levels\<close>) is exactly what it was.
\<close>

theorem retro_influence_out_of_range:
  "t_future \<ge> length (history u) \<or> t_past \<ge> length (history u) \<Longrightarrow>
   retro_influence u t_future t_past strength = (None, u)"
  by (auto simp add: retro_influence_def)

theorem retro_influence_out_of_range_witness:
  "(3 \<ge> length (history U_run) \<or> 0 \<ge> length (history U_run)) \<and>
   retro_influence U_run 3 0 (Val (1 / 2)) = (None, U_run)"
proof -
  have h: "3 \<ge> length (history U_run) \<or> 0 \<ge> length (history U_run)"
    by (simp add: U_run_history)
  from retro_influence_out_of_range [OF h] h show ?thesis by blast
qed




section \<open>Claims about the levels table and the aggregate\<close>

text \<open>
  C1, as the code has it. Take any time \<open>t \<ge> 1\<close> at which a step has returned normally
  (\<open>g t = Some (b, maxLevel)\<close>: the latest such step appended \<open>b\<close> to \<open>history\<close>), in
  any universe reached afterwards by further steps, the remaining steps of a \<open>run\<close>,
  steps that throw and \<open>retro_influence\<close> calls, with a dimension that \<open>new Array\<close>
  accepts. Then \<open>levels[t]\<close> still holds \<open>b\<close> under level 0, followed by the derived
  levels \<open>1 .. maxLevel - 1\<close>, and \<open>infinite_state(t)\<close> is the component-wise sum of
  \<open>levels[t][l] * 1/(l+1)\<close> over all of them, accumulated from 0 in ascending order of
  \<open>l\<close>: the level-0 state is part of the sum, with weight \<open>1/(0+1)\<close>. By
  \<open>run_stepped\<close> every time \<open>1 \<le> t < steps\<close> of a \<open>run\<close> that returned normally is
  such a time.
\<close>

theorem infinite_state_all_levels:
  assumes "stepped u0 u g" and "g t = Some (b, maxLevel)"
    and "0 \<le> dim u \<and> dim u \<le> MAX_ARRAY_LENGTH"
  shows "\<exists>rest. map_of (levels u) t = Some ((0, b) # rest) \<and>
           map fst rest = [1..<max 1 maxLevel] \<and>
           infinite_state u t = Inr (map (weighted_sum ((0, b) # rest)) [0..<nat (dim u)])"
proof -
  from stepped_levels [OF assms(1,2)]
  obtain rest where m: "map_of (levels u) t = Some ((0, b) # rest)"
    and r: "map fst rest = [1..<max 1 maxLevel]"
    by blast
  have keys: "map fst ((0, b) # rest) = [0..<max 1 maxLevel]"
    by (simp add: r upt_conv_Cons)
  have "infinite_state u t = Inr (map (weighted_sum ((0, b) # rest)) [0..<nat (dim u)])"
    by (rule infinite_state_sorted [OF m assms(3)]) (simp_all only: keys sorted_upt distinct_upt)
  with m r show ?thesis by blast
qed

theorem infinite_state_all_levels_witness:
  "stepped U_seed U_pert G_run \<and> G_run 1 = Some ([Val 1, Val 1, Val 1, Val 1], 2) \<and>
   (0 \<le> dim U_pert \<and> dim U_pert \<le> MAX_ARRAY_LENGTH) \<and>
   history U_pert ! 1 = [Val (1 / 2), Val (1 / 2), Val (1 / 2), Val (1 / 2)] \<and>
   infinite_state U_pert 1 =
     Inr [Val (1 + (sin 1 / 2 + cos 1 / 2) / 2), Val (1 + (sin 1 / 2 + cos 1 / 2) / 2),
          Val (1 + (sin 1 / 2 + cos 1 / 2) / 2), Val (1 + (sin 1 / 2 + cos 1 / 2) / 2)]"
proof -
  note h1 = stepped_scenario
  have h2: "G_run 1 = Some ([Val 1, Val 1, Val 1, Val 1], 2)" by (simp add: G_run_def)
  have h3: "0 \<le> dim U_pert \<and> dim U_pert \<le> MAX_ARRAY_LENGTH"
    using U_pert_eq by (simp add: MAX_ARRAY_LENGTH_def)
  from infinite_state_all_levels [OF h1 h2 h3]
  obtain rest where m: "map_of (levels U_pert) 1 = Some ((0, [Val 1, Val 1, Val 1, Val 1]) # rest)"
    and i: "infinite_state U_pert 1 =
             Inr (map (weighted_sum ((0, [Val 1, Val 1, Val 1, Val 1]) # rest))
                    [0..<nat (dim U_pert)])"
    by blast
  from m U_pert_eq have "rest = [(1, [Val (sin 1 / 2 + cos 1 / 2), Val (sin 1 / 2 + cos 1 / 2),
                            Val (sin 1 / 2 + cos 1 / 2), Val (sin 1 / 2 + cos 1 / 2)])]"
    by (simp add: U_run_levels)
  with i U_pert_eq have "infinite_state U_pert 1 =
     Inr [Val (1 + (sin 1 / 2 + cos 1 / 2) / 2), Val (1 + (sin 1 / 2 + cos 1 / 2) / 2),
          Val (1 + (sin 1 / 2 + cos 1 / 2) / 2), Val (1 + (sin 1 / 2 + cos 1 / 2) / 2)]"
    by (simp add: weighted_sum_def jsum_def idx_def upt_conv_Cons)
  moreover from U_pert_eq
  have "history U_pert ! 1 = [Val (1 / 2), Val (1 / 2), Val (1 / 2), Val (1 / 2)]" by simp
  ultimately show ?thesis using h1 h2 h3 by blast
qed

text \<open>
  The claim C1 as stated fails: after the first step of the scenario, \<open>infinite_state(1)\<close>
  is not the sum over the derived levels \<open>l \<ge> 1\<close>; each component exceeds it by the
  level-0 component 1.
\<close>

theorem infinite_state_level0_counterexample:
  "step (\<lambda>_. 0) 0 U_seed 1 2 = (None, U_step, 0) \<and>
   infinite_state U_step 1 \<noteq> Inr (infinite_state_spec U_step 1) \<and>
   infinite_state_spec U_step 1 =
     [Val ((sin 1 / 2 + cos 1 / 2) / 2), Val ((sin 1 / 2 + cos 1 / 2) / 2),
      Val ((sin 1 / 2 + cos 1 / 2) / 2), Val ((sin 1 / 2 + cos 1 / 2) / 2)] \<and>
   infinite_state U_step 1 =
     Inr [Val (1 + (sin 1 / 2 + cos 1 / 2) / 2), Val (1 + (sin 1 / 2 + cos 1 / 2) / 2),
          Val (1 + (sin 1 / 2 + cos 1 / 2) / 2), Val (1 + (sin 1 / 2 + cos 1 / 2) / 2)]"
proof -
  have s: "infinite_state_spec U_step 1 =
     [Val ((sin 1 / 2 + cos 1 / 2) / 2), Val ((sin 1 / 2 + cos 1 / 2) / 2),
      Val ((sin 1 / 2 + cos 1 / 2) / 2), Val ((sin 1 / 2 + cos 1 / 2) / 2)]"
    by (simp add: infinite_state_spec_def U_step_eq weighted_sum_def jsum_def idx_def upt_conv_Cons)
  note i = U_step_infinite_state
  have ne: "infinite_state U_step 1 \<noteq> Inr (infinite_state_spec U_step 1)"
    unfolding s i by (simp add: field_simps)
  from step_None_eval ne s i show ?thesis by blast
qed

text \<open>
  C2, as the code has it. Take any time \<open>t \<ge> 1\<close> at which a step has returned normally
  (\<open>g t = Some (b, maxLevel)\<close>: the latest such step appended \<open>b\<close> to \<open>history\<close>), in
  any universe reached afterwards by further steps, the remaining steps of a \<open>run\<close>,
  steps that throw and \<open>retro_influence\<close> calls. Then the levels table holds an entry at
  level index 0 for time \<open>t\<close>, and it is that state \<open>b\<close>: the step stores its level-0
  state in \<open>levels\<close> as well as in \<open>history\<close>, and nothing later removes or rewrites the
  entry in \<open>levels\<close>.
\<close>

theorem levels_keep_level0:
  assumes "stepped u0 u g" and "g t = Some (b, maxLevel)"
  shows "level_at u t 0 = Some b"
proof -
  from stepped_levels [OF assms]
  obtain rest where "map_of (levels u) t = Some ((0, b) # rest)" by blast
  then show ?thesis by (simp add: level_at_def)
qed

theorem levels_keep_level0_witness:
  "stepped U_seed U_pert G_run \<and> G_run 1 = Some ([Val 1, Val 1, Val 1, Val 1], 2) \<and>
   level_at U_pert 1 0 = Some [Val 1, Val 1, Val 1, Val 1] \<and>
   history U_pert ! 1 = [Val (1 / 2), Val (1 / 2), Val (1 / 2), Val (1 / 2)]"
proof -
  have h2: "G_run 1 = Some ([Val 1, Val 1, Val 1, Val 1], 2)" by (simp add: G_run_def)
  from U_pert_eq
  have "history U_pert ! 1 = [Val (1 / 2), Val (1 / 2), Val (1 / 2), Val (1 / 2)]" by simp
  with levels_keep_level0 [OF stepped_scenario h2] stepped_scenario h2 show ?thesis by blast
qed

text \<open>
  The claim C2 as stated fails: after the first step of the scenario the levels table
  has an entry at level index 0 for time 1.
\<close>

theorem levels_hold_level0_counterexample:
  "step (\<lambda>_. 0) 0 U_seed 1 2 = (None, U_step, 0) \<and>
   level_at U_step 1 0 = Some [Val 1, Val 1, Val 1, Val 1]"
proof -
  have "level_at U_step 1 0 = Some [Val 1, Val 1, Val 1, Val 1]"
    by (simp add: U_step_eq level_at_def)
  with step_None_eval show ?thesis by blast
qed

section \<open>Claims about construction and the concrete scenario\<close>

text \<open>
  C9. A universe constructed with dimension 4, the nonlinear model (any system type) and
  seed \<open>[0,0,0,0]\<close>, after \<open>run(3, 2)\<close>: the run returns normally, \<open>history[0]\<close> is the
  seed and \<open>history[1]\<close> is \<open>blend(sin seed, cos seed, 1/(1+0)) = [1,1,1,1]\<close>, the memory
  at \<open>t = 1\<close> being the previous state itself.
\<close>

theorem scenario_history:
  "\<exists>u0 k1 u k'.
          LivingUniverse src0 k0 (Some 4) (Some ''nonlinear'') st (Some seed4) = Inr (u0, k1) \<and>
          run src k u0 3 2 = (None, u, k') \<and>
          history u ! 0 = [Val 0, Val 0, Val 0, Val 0] \<and>
          history u ! 1 = blendVec (sinVec seed4) (cosVec seed4) (Val (1 / (1 + real (0::nat)))) \<and>
          blendVec (sinVec seed4) (cosVec seed4) (Val 1) =
            blendVec [Val 0, Val 0, Val 0, Val 0] [Val 1, Val 1, Val 1, Val 1] (Val 1) \<and>
          history u ! 1 = [Val 1, Val 1, Val 1, Val 1]"
  by (simp add: scenario_defs)

text \<open>
  C8, as the code has it. Construction with \<open>dim < 1\<close> does not fail. A zero \<open>dim\<close> is
  replaced by the default dimension 10; a negative \<open>dim\<close> is stored as given, and with
  the seed omitted the initial state is then the empty vector. The result is a universe
  with one state in \<open>history\<close> and an empty levels table, on which \<open>run\<close> returns
  normally for every number of steps and levels.
\<close>

theorem construction_accepts_small_dim:
  assumes "d < 1"
  shows "\<exists>u k'. LivingUniverse src k (Some d) mt st seed = Inr (u, k') \<and>
           dim u = (if d = 0 then 10 else d) \<and>
           history u = [case seed of None \<Rightarrow> map (\<lambda>i. Val (src (k + i))) [0..<(if d = 0 then 10 else 0)]
                        | Some s \<Rightarrow> s] \<and>
           levels u = [] \<and>
           (\<forall>src' k0 steps maxLevel. fst (run src' k0 u steps maxLevel) = None)"
proof -
  from assms have "\<exists>u k'. LivingUniverse src k (Some d) mt st seed = Inr (u, k')"
    by (cases seed)
      (simp_all add: LivingUniverse_def Let_def randVec_def DEFAULT_DIM_def MAX_ARRAY_LENGTH_def)
  then obtain u k' where c: "LivingUniverse src k (Some d) mt st seed = Inr (u, k')"
    by blast
  from LivingUniverse_fields [OF c] assms
  have f: "dim u = (if d = 0 then 10 else d)"
    "history u = [case seed of None \<Rightarrow> map (\<lambda>i. Val (src (k + i))) [0..<(if d = 0 then 10 else 0)]
                        | Some s \<Rightarrow> s]"
    "levels u = []"
    by (auto simp add: DEFAULT_DIM_def split: option.splits)
  from f(2) have "length (history u) = 1" by simp
  then have "\<forall>src' k0 steps maxLevel. fst (run src' k0 u steps maxLevel) = None"
    by (simp add: run_ok)
  with c f show ?thesis by blast
qed

theorem construction_accepts_small_dim_witness:
  "(0::int) < 1 \<and>
   (\<exists>u k'. LivingUniverse (\<lambda>_. 0) 0 (Some 0) None None None = Inr (u, k') \<and> dim u = 10 \<and>
            history u = [replicate 10 (Val 0)] \<and>
            fst (run (\<lambda>_. 0) k' u 3 2) = None)"
proof -
  have h: "(0::int) < 1" by simp
  from construction_accepts_small_dim [OF h, of "\<lambda>_. 0" 0 None None None]
  obtain u k' where c: "LivingUniverse (\<lambda>_. 0) 0 (Some 0) None None None = Inr (u, k')"
    and d: "dim u = 10"
    and r: "\<forall>src' k0 steps maxLevel. fst (run src' k0 u steps maxLevel) = None"
    by auto
  from c have "history u = [replicate 10 (Val 0)]"
    by (auto simp add: LivingUniverse_def DEFAULT_DIM_def randVec_def MAX_ARRAY_LENGTH_def Let_def
        map_replicate_const simp flip: replicate_length_same)
  with h c d r show ?thesis by blast
qed

text \<open>
  The claim C8 as stated fails: construction with \<open>dim = 0\<close> and with \<open>dim = -1\<close>
  (everything else omitted) yields universes, of dimension 10 and \<open>-1\<close>.
\<close>

theorem construction_dim0_counterexample:
  "LivingUniverse (\<lambda>_. 0) 0 (Some 0) None None None =
     Inr (\<lparr>dim = 10, modelType = ''nonlinear'', systemType = ''isolated'',
           history = [[Val 0, Val 0, Val 0, Val 0, Val 0, Val 0, Val 0, Val 0, Val 0, Val 0]],
           levels = []\<rparr>, 10) \<and>
   LivingUniverse (\<lambda>_. 0) 0 (Some (- 1)) None None None =
     Inr (\<lparr>dim = - 1, modelType = ''nonlinear'', systemType = ''isolated'',
           history = [[]], levels = []\<rparr>, 0)"
  by (simp add: LivingUniverse_def DEFAULT_DIM_def randVec_def MAX_ARRAY_LENGTH_def upt_conv_Cons)

section \<open>Claims about the oscillator model\<close>

text \<open>
  C6, as the code has it. In the oscillators model, for every input state, every pair
  \<open>i\<close> and every outcome of the draws, the output position is
  \<open>next[2i] = prev[2i] + 0.05 * vd\<close> where \<open>vd\<close> is the damped velocity before any noise.
  With system type \<open>open\<close> the stored velocity is \<open>next[2i+1] = vd + noise\<close>, the noise
  \<open>(r * 2 - 1) * 0.02\<close> coming from the \<open>i\<close>-th draw \<open>r\<close> of the call and lying in
  \<open>[-0.02, 0.02]\<close> for a draw in \<open>[0, 1)\<close>; so the position integrates the velocity
  without its noise. With any other system type no noise is drawn and
  \<open>next[2i] = prev[2i] + 0.05 * next[2i+1]\<close>.
\<close>

theorem oscillators_position_update:
  assumes "2 * i + 1 < length prev"
  shows "\<exists>nxt k' vd. evolveOscillators src k prev st = (nxt, k') \<and>
           vd = osc_vdamp (osc_gamma st) prev (length prev div 2) i \<and>
           nxt ! (2 * i) = jadd (prev ! (2 * i)) (jmul (Val 0.05) vd) \<and>
           (st = ''open'' \<longrightarrow>
              nxt ! (2 * i + 1) = jadd vd (Val (osc_noise (src (k + i)))) \<and>
              (0 \<le> src (k + i) \<and> src (k + i) < 1 \<longrightarrow>
                 - 0.02 \<le> osc_noise (src (k + i)) \<and> osc_noise (src (k + i)) \<le> 0.02)) \<and>
           (st \<noteq> ''open'' \<longrightarrow>
              nxt ! (2 * i + 1) = vd \<and>
              nxt ! (2 * i) = jadd (prev ! (2 * i)) (jmul (Val 0.05) (nxt ! (2 * i + 1))))"
proof -
  from evolveOscillators_pair [OF assms, of src k st]
  obtain nxt k' where e: "evolveOscillators src k prev st = (nxt, k')"
    and x: "nxt ! (2 * i) =
             jadd (prev ! (2 * i))
               (jmul (Val 0.05) (osc_vdamp (osc_gamma st) prev (length prev div 2) i))"
    and v: "nxt ! (2 * i + 1) =
             (if st = ''open''
              then jadd (osc_vdamp (osc_gamma st) prev (length prev div 2) i)
                        (Val (osc_noise (src (k + i))))
              else osc_vdamp (osc_gamma st) prev (length prev div 2) i)"
    by blast
  have "0 \<le> src (k + i) \<and> src (k + i) < 1 \<longrightarrow>
          - 0.02 \<le> osc_noise (src (k + i)) \<and> osc_noise (src (k + i)) \<le> 0.02"
    by (simp add: osc_noise_def)
  with e x v show ?thesis by auto
qed

theorem oscillators_position_update_witness:
  "2 * 0 + 1 < length [Val 0, Val 0] \<and>
   (\<exists>nxt k'. evolveOscillators (\<lambda>_. 0) 0 [Val 0, Val 0] ''open'' = (nxt, k') \<and>
      nxt ! (2 * 0) = Val 0 \<and> nxt ! (2 * 0 + 1) = Val (- (1 / 50)))"
proof -
  have h: "2 * 0 + 1 < length [Val 0, Val (0::real)]" by simp
  have vd: "osc_vdamp (osc_gamma ''open'') [Val 0, Val 0] (length [Val 0, Val (0::real)] div 2) 0 = Val 0"
    by (simp add: osc_vdamp_def osc_gamma_def idx_def)
  have ns: "osc_noise 0 = - (1 / 50)" by (simp add: osc_noise_def)
  from oscillators_position_update [OF h, of "\<lambda>_. 0" 0 "''open''"]
  obtain nxt k' where e: "evolveOscillators (\<lambda>_. 0) 0 [Val 0, Val 0] ''open'' = (nxt, k')"
    and x: "nxt ! (2 * 0) = jadd ([Val 0, Val 0] ! (2 * 0)) (jmul (Val 0.05)
              (osc_vdamp (osc_gamma ''open'') [Val 0, Val 0] (length [Val 0, Val (0::real)] div 2) 0))"
    and v: "nxt ! (2 * 0 + 1) =
              jadd (osc_vdamp (osc_gamma ''open'') [Val 0, Val 0] (length [Val 0, Val (0::real)] div 2) 0)
                (Val (osc_noise 0))"
    by blast
  from x have x': "nxt ! (2 * 0) = Val 0" unfolding vd by simp
  from v have v': "nxt ! (2 * 0 + 1) = Val (- (1 / 50))" unfolding vd ns by simp
  from h e x' v' show ?thesis by blast
qed

text \<open>
  The claim C6 as stated fails: for the state \<open>[0, 0]\<close> of an open system and a draw of 0
  the outputs are position 0 and stored velocity \<open>-0.02\<close>, and
  \<open>0 \<noteq> 0 + 0.05 * (-0.02)\<close>.
\<close>

theorem oscillators_open_position_counterexample:
  "evolveOscillators (\<lambda>_. 0) 0 [Val 0, Val 0] ''open'' = ([Val 0, Val (- (1 / 50))], 1) \<and>
   fst (evolveOscillators (\<lambda>_. 0) 0 [Val 0, Val 0] ''open'') ! (2 * 0) \<noteq>
     jadd ([Val 0, Val 0] ! (2 * 0))
       (jmul (Val 0.05) (fst (evolveOscillators (\<lambda>_. 0) 0 [Val 0, Val 0] ''open'') ! (2 * 0 + 1)))"
proof -
  have "evolveOscillators (\<lambda>_. 0) 0 [Val 0, Val 0] ''open'' = ([Val 0, Val (- (1 / 50))], 1)"
    by (simp add: evolveOscillators_def osc_loop.simps osc_body_def Math_random_def jset_def
        idx_def Let_def)
  then show ?thesis by simp
qed

section \<open>Determinism\<close>

text \<open>
  C7. Two universes constructed with the same \<open>dim\<close>, model type, system type and the
  same explicit seed are equal, whatever the random sources of the two constructions; and
  when the path draws no random number (the nonlinear model, or the oscillator or Ising
  model with a system type other than \<open>open\<close>), running both with the same \<open>steps\<close> and
  \<open>maxLevel\<close> ends in the same way (normally or with the same exception) with equal
  universes, hence equal \<open>history\<close> and \<open>levels\<close> tables, whatever the two random
  sources and their positions.
\<close>

theorem run_deterministic:
  assumes "LivingUniverse srcA kA d mt st (Some seed) = Inr (uA, kA')"
    and "LivingUniverse srcB kB d mt st (Some seed) = Inr (uB, kB')"
    and "noise_free (modelType uA) (systemType uA)"
    and "run srcA kA' uA steps maxLevel = (rA, uA', kA'')"
    and "run srcB kB' uB steps maxLevel = (rB, uB', kB'')"
  shows "uA = uB \<and> rA = rB \<and> uA' = uB' \<and>
         history uA' = history uB' \<and> levels uA' = levels uB'"
proof -
  from assms(1,2) have eq: "uA = uB"
    by (auto simp add: LivingUniverse_def Let_def)
  obtain r u' k0 where c: "run (\<lambda>_. 0) 0 uA steps maxLevel = (r, u', k0)"
    by (cases "run (\<lambda>_. 0) 0 uA steps maxLevel") auto
  from run_loop_canon [OF assms(3), of srcA kA' steps maxLevel 1] c assms(4)
  have a: "rA = r \<and> uA' = u'" by (simp add: run_def)
  from run_loop_canon [OF assms(3), of srcB kB' steps maxLevel 1] c assms(5) eq
  have b: "rB = r \<and> uB' = u'" by (simp add: run_def)
  from eq a b show ?thesis by simp
qed
theorem run_deterministic_witness:
  "LivingUniverse (\<lambda>_. 0) 0 (Some 4) (Some ''oscillators'') (Some ''closed'')
     (Some [Val 1, Val 0, Val 0, Val 0]) = Inr (U_osc, 0) \<and>
   LivingUniverse (\<lambda>_. 1 / 2) 5 (Some 4) (Some ''oscillators'') (Some ''closed'')
     (Some [Val 1, Val 0, Val 0, Val 0]) = Inr (U_osc, 5) \<and>
   noise_free (modelType U_osc) (systemType U_osc) \<and>
   fst (run (\<lambda>_. 0) 0 U_osc 3 2) = fst (run (\<lambda>_. 1 / 2) 5 U_osc 3 2) \<and>
   fst (snd (run (\<lambda>_. 0) 0 U_osc 3 2)) = fst (snd (run (\<lambda>_. 1 / 2) 5 U_osc 3 2))"
proof -
  have h1: "LivingUniverse (\<lambda>_. 0) 0 (Some 4) (Some ''oscillators'') (Some ''closed'')
     (Some [Val 1, Val 0, Val 0, Val 0]) = Inr (U_osc, 0)"
    by (simp add: LivingUniverse_def U_osc_def)
  have h2: "LivingUniverse (\<lambda>_. 1 / 2) 5 (Some 4) (Some ''oscillators'') (Some ''closed'')
     (Some [Val 1, Val 0, Val 0, Val 0]) = Inr (U_osc, 5)"
    by (simp add: LivingUniverse_def U_osc_def)
  have h3: "noise_free (modelType U_osc) (systemType U_osc)"
    by (simp add: noise_free_def U_osc_def)
  have h4: "run (\<lambda>_. 0) 0 U_osc 3 2 =
      (fst (run (\<lambda>_. 0) 0 U_osc 3 2), fst (snd (run (\<lambda>_. 0) 0 U_osc 3 2)),
       snd (snd (run (\<lambda>_. 0) 0 U_osc 3 2)))"
    by simp
  have h5: "run (\<lambda>_. 1 / 2) 5 U_osc 3 2 =
      (fst (run (\<lambda>_. 1 / 2) 5 U_osc 3 2), fst (snd (run (\<lambda>_. 1 / 2) 5 U_osc 3 2)),
       snd (snd (run (\<lambda>_. 1 / 2) 5 U_osc 3 2)))"
    by simp
  from run_deterministic [OF h1 h2 h3 h4 h5] h1 h2 h3 show ?thesis by blast
qed

section \<open>The length invariant\<close>

text \<open>
  C10. Let a universe be constructed with a seed vector whose length is the universe's
  \<open>dim\<close>, or with the seed omitted and a \<open>dim\<close> that is not negative (the random seed
  then has length \<open>dim\<close>). Then in every universe reachable from it by \<open>step\<close>, \<open>run\<close>
  and \<open>retro_influence\<close>, every vector stored in \<open>history\<close> and in the levels table
  has length exactly \<open>dim\<close>, and \<open>dim\<close> itself never changes.
\<close>

theorem length_invariant:
  assumes "LivingUniverse src k d mt st seed = Inr (u0, k0)"
    and "case seed of Some s \<Rightarrow> int (length s) = dim u0 | None \<Rightarrow> 0 \<le> dim u0"
    and "reachable u0 u"
  shows "all_length (nat (dim u0)) u \<and> dim u = dim u0"
proof -
  from LivingUniverse_fields [OF assms(1)]
  have h: "history u0 = [case seed of None \<Rightarrow> map (\<lambda>i. Val (src (k + i))) [0..<nat (dim u0)]
                         | Some s \<Rightarrow> s]"
    and l: "levels u0 = []" by simp_all
  from assms(2) have "length (case seed of None \<Rightarrow> map (\<lambda>i. Val (src (k + i))) [0..<nat (dim u0)]
                              | Some s \<Rightarrow> s) = nat (dim u0)"
    by (auto split: option.splits)
  with h l have "all_length (nat (dim u0)) u0" by (simp add: all_length_def)
  from reachable_all_length [OF assms(3) this] show ?thesis .
qed

theorem length_invariant_witness:
  "LivingUniverse (\<lambda>_. 0) 0 (Some 4) (Some ''nonlinear'') (Some ''isolated'') (Some seed4)
     = Inr (U_seed, 0) \<and>
   int (length seed4) = dim U_seed \<and>
   reachable U_seed (snd (retro_influence U_run 2 0 (Val (1 / 2)))) \<and>
   all_length 4 (snd (retro_influence U_run 2 0 (Val (1 / 2))))"
proof -
  have h1: "LivingUniverse (\<lambda>_. 0) 0 (Some 4) (Some ''nonlinear'') (Some ''isolated'') (Some seed4)
     = Inr (U_seed, 0)"
    by (rule U_seed_constructed)
  have d: "int (length seed4) = dim U_seed" by (simp add: U_seed_eq seed4_def)
  then have h2: "case Some seed4 of Some s \<Rightarrow> int (length s) = dim U_seed | None \<Rightarrow> 0 \<le> dim U_seed"
    by simp
  have "run (\<lambda>_. 0) 0 U_seed 3 2 =
          (fst (run (\<lambda>_. 0) 0 U_seed 3 2), U_run, snd (snd (run (\<lambda>_. 0) 0 U_seed 3 2)))"
    by (simp add: U_run_def)
  from reachable.by_run [OF reachable.start this] have "reachable U_seed U_run" .
  moreover have "retro_influence U_run 2 0 (Val (1 / 2)) =
      (fst (retro_influence U_run 2 0 (Val (1 / 2))), snd (retro_influence U_run 2 0 (Val (1 / 2))))"
    by simp
  ultimately have h3: "reachable U_seed (snd (retro_influence U_run 2 0 (Val (1 / 2))))"
    by (rule reachable.by_retro)
  from length_invariant [OF h1 h2 h3]
  have "all_length 4 (snd (retro_influence U_run 2 0 (Val (1 / 2))))"
    by (simp add: U_seed_eq)
  with h1 d h3 show ?thesis by blast
qed

end
